theory Spec2Isabelle
  imports Main "HOL-Library.Word" "HOL-Library.Multiset"
begin

section \<open>Data model\<close>

text \<open>
  The allocator of \<^verbatim>\<open>memalloc.c\<close> partitions one caller-supplied arena. Addresses and
  \<^verbatim>\<open>size_t\<close> values are 64-bit words (an LP64 target: \<^verbatim>\<open>size_t\<close>, \<^verbatim>\<open>long\<close> and pointers
  all have 64 bits); \<open>+\<close> and \<open>-\<close> on them wrap, \<open><\<close> is the unsigned comparison and
  \<open><s\<close> the signed one.
\<close>

type_synonym addr = "64 word"
type_synonym size_t = "64 word"

text \<open>
  Modelled from the spec: the header \<^verbatim>\<open>pintos/memalloc.h\<close> with the declarations of
  \<^verbatim>\<open>struct free_block\<close> and \<^verbatim>\<open>struct used_block\<close> is not among the sources. The spec gives
  a free block a length field followed by the list linkage, and a used block a length field
  immediately followed by the data region. The sizes of the two structs and the offset of the
  linkage field \<^verbatim>\<open>elem\<close> are parameters; \<^verbatim>\<open>length\<close> is the first field of both structs and
  the data region of a used block starts \<^verbatim>\<open>sizeof(struct used_block)\<close> bytes after its
  header (the code itself steps back by that amount in \<^verbatim>\<open>mem_free\<close>).
\<close>

record layout =
  sizeof_free_block :: size_t
  sizeof_used_block :: size_t
  offsetof_elem :: size_t

text \<open>
  The store \<open>mem\<close> holds the \<^verbatim>\<open>size_t\<close> length field found at an address, which is the field
  \<^verbatim>\<open>length\<close> of a free block or of a used block, whichever header the code reads there: both
  headers are overlaid on the same arena bytes. The free list is the sequence of linked
  \<^verbatim>\<open>list_elem\<close> addresses in list order, and \<open>gmutex\<close> tells whether the global lock is held.
\<close>

record state =
  mem :: "addr \<Rightarrow> size_t"
  free_list :: "addr list"
  gmutex :: bool

section \<open>The lock\<close>

text \<open>
  \<^verbatim>\<open>pthread_mutex_lock\<close> on a mutex that is already held does not return: the result
  \<open>None\<close> stands for a call that blocks forever.
\<close>

definition pthread_mutex_lock :: "state \<Rightarrow> state option" where
  "pthread_mutex_lock s = (if gmutex s then None else Some (s\<lparr>gmutex := True\<rparr>))"

definition pthread_mutex_unlock :: "state \<Rightarrow> state" where
  "pthread_mutex_unlock s = s\<lparr>gmutex := False\<rparr>"

section \<open>The list library\<close>

text \<open>
  Modelled from the spec: the list library (\<^verbatim>\<open>list_entry\<close>, \<^verbatim>\<open>list_push_back\<close>,
  \<^verbatim>\<open>list_remove\<close>, \<^verbatim>\<open>list_insert_ordered\<close>) is not among the sources. The spec asks of the
  collection ordered insertion driven by a boolean less-than predicate, traversal and
  removal. \<open>list_insert_ordered\<close> walks the list from the front and puts the new element
  before the first element that the predicate places after it, or at the end.
\<close>

definition list_entry :: "layout \<Rightarrow> addr \<Rightarrow> addr" where
  "list_entry L e = e - offsetof_elem L"

definition elem_of :: "layout \<Rightarrow> addr \<Rightarrow> addr" where
  "elem_of L fb = fb + offsetof_elem L"

definition list_push_back :: "addr list \<Rightarrow> addr \<Rightarrow> addr list" where
  "list_push_back xs e = xs @ [e]"

definition list_remove :: "addr \<Rightarrow> addr list \<Rightarrow> addr list" where
  "list_remove e xs = remove1 e xs"

fun list_insert_ordered :: "addr list \<Rightarrow> addr \<Rightarrow> (addr \<Rightarrow> addr \<Rightarrow> bool) \<Rightarrow> addr list" where
  "list_insert_ordered [] el lessf = [el]"
| "list_insert_ordered (e # es) el lessf =
     (if lessf el e then el # e # es else e # list_insert_ordered es el lessf)"

section \<open>The allocator\<close>

text \<open>\<^verbatim>\<open>mem_init\<close>: one free block over the whole arena.\<close>

definition mem_init :: "layout \<Rightarrow> addr \<Rightarrow> size_t \<Rightarrow> state \<Rightarrow> state" where
  "mem_init L base len s =
     (let fb = base;
          s = s\<lparr>mem := (mem s)(fb := len)\<rparr>
      in s\<lparr>free_list := list_push_back [] (elem_of L fb)\<rparr>)"

text \<open>
  The loop of \<^verbatim>\<open>mem_alloc\<close> over the elements that are still to be visited. It returns the
  pointer handed to the caller (\<open>0\<close> is \<^verbatim>\<open>NULL\<close>) and the state after the unlock.
\<close>

fun mem_alloc_loop :: "layout \<Rightarrow> size_t \<Rightarrow> size_t \<Rightarrow> addr list \<Rightarrow> state \<Rightarrow> addr \<times> state" where
  "mem_alloc_loop L len size_needed [] s = (0, pthread_mutex_unlock s)"
| "mem_alloc_loop L len size_needed (e # es) s =
     (let fb = list_entry L e in
      if mem s fb < size_needed then mem_alloc_loop L len size_needed es s
      else
        let leftover = mem s fb - size_needed;
            (len, size_needed, s) =
              (if leftover <s sizeof_free_block L
               then (len + leftover, len + leftover + sizeof_used_block L,
                     s\<lparr>free_list := list_remove e (free_list s)\<rparr>)
               else (len, size_needed, s));
            end_of_fb = fb + mem s fb;
            ub = end_of_fb - size_needed;
            s = s\<lparr>mem := (mem s)(fb := mem s fb - size_needed)\<rparr>;
            s = s\<lparr>mem := (mem s)(ub := len)\<rparr>
        in (ub + sizeof_used_block L, pthread_mutex_unlock s))"

definition min_alloc_size :: "layout \<Rightarrow> size_t" where
  "min_alloc_size L = sizeof_free_block L - sizeof_used_block L"

definition clamp_length :: "layout \<Rightarrow> size_t \<Rightarrow> size_t" where
  "clamp_length L len = (if len < min_alloc_size L then min_alloc_size L else len)"

definition mem_alloc :: "layout \<Rightarrow> size_t \<Rightarrow> state \<Rightarrow> (addr \<times> state) option" where
  "mem_alloc L len s =
     (case pthread_mutex_lock s of
        None \<Rightarrow> None
      | Some s \<Rightarrow>
          let len = clamp_length L len;
              size_needed = len + sizeof_used_block L
          in Some (mem_alloc_loop L len size_needed (free_list s) s))"

text \<open>
  \<^verbatim>\<open>compare\<close> is declared \<^verbatim>\<open>bool\<close> and returns \<^verbatim>\<open>-1\<close>, \<^verbatim>\<open>0\<close> or \<^verbatim>\<open>1\<close>: the value the caller
  tests is the conversion of that integer to a truth value.
\<close>

definition c_bool :: "int \<Rightarrow> bool" where
  "c_bool i = (i \<noteq> 0)"

definition compare :: "addr \<Rightarrow> addr \<Rightarrow> bool" where
  "compare a b =
     (if a <s b then c_bool (- 1)
      else if a = b then c_bool 0
      else c_bool 1)"

text \<open>
  The scan of \<^verbatim>\<open>mem_free\<close> for the free blocks around the used block: the triple is
  \<^verbatim>\<open>fb_before\<close>, \<^verbatim>\<open>fb_after\<close> and \<^verbatim>\<open>e_to_remove\<close>. The last one is not initialised in the
  source and is read only after \<^verbatim>\<open>fb_after\<close> was set in the same iteration.
\<close>

fun mem_free_scan :: "layout \<Rightarrow> state \<Rightarrow> addr \<Rightarrow> addr \<Rightarrow> addr list \<Rightarrow>
    addr \<times> addr \<times> addr \<Rightarrow> addr \<times> addr \<times> addr" where
  "mem_free_scan L s ptr ub [] r = r"
| "mem_free_scan L s ptr ub (e # es) (fb_before, fb_after, e_to_remove) =
     (let fb = list_entry L e;
          fb_before = (if ub = fb + mem s fb then fb else fb_before);
          (fb_after, e_to_remove) =
            (if fb = ptr + mem s ub then (fb, e) else (fb_after, e_to_remove))
      in mem_free_scan L s ptr ub es (fb_before, fb_after, e_to_remove))"

definition mem_free :: "layout \<Rightarrow> addr \<Rightarrow> state \<Rightarrow> state option" where
  "mem_free L ptr s =
     (let ub = ptr - sizeof_used_block L in
      case pthread_mutex_lock s of
        None \<Rightarrow> None
      | Some s \<Rightarrow>
          if ptr = 0 then Some s
          else
            let available_space = sizeof_used_block L + mem s ub;
                (fb_before, fb_after, e_to_remove) =
                  mem_free_scan L s ptr ub (free_list s) (0, 0, 0)
            in
            if fb_before = 0 \<and> fb_after = 0 then
              let fb = ub;
                  s = s\<lparr>mem := (mem s)(fb := available_space)\<rparr>;
                  s = s\<lparr>free_list := list_insert_ordered (free_list s) (elem_of L fb) compare\<rparr>
              in Some (pthread_mutex_unlock s)
            else if fb_before \<noteq> 0 \<and> fb_after = 0 then
              let s = s\<lparr>mem := (mem s)(fb_before := mem s fb_before + available_space)\<rparr>
              in Some (pthread_mutex_unlock s)
            else if fb_before = 0 \<and> fb_after \<noteq> 0 then
              let fb = ub;
                  s = s\<lparr>mem := (mem s)(fb := available_space + mem s fb_after)\<rparr>;
                  s = s\<lparr>free_list := list_insert_ordered (free_list s) (elem_of L fb) compare\<rparr>;
                  s = s\<lparr>free_list := list_remove e_to_remove (free_list s)\<rparr>
              in Some (pthread_mutex_unlock s)
            else
              let s = s\<lparr>mem := (mem s)(fb_before := mem s fb_before + available_space)\<rparr>;
                  s = s\<lparr>mem := (mem s)(fb_before := mem s fb_before + mem s fb_after)\<rparr>;
                  s = s\<lparr>free_list := list_remove e_to_remove (free_list s)\<rparr>
              in Some (pthread_mutex_unlock s))"

section \<open>Diagnostics\<close>

definition mem_sizeof_free_list :: "state \<Rightarrow> nat" where
  "mem_sizeof_free_list s = length (free_list s)"

text \<open>
  The free list as \<^verbatim>\<open>mem_dump_free_list\<close> walks it: for every element, in list order, the
  address of its free block and the length stored there.
\<close>

definition free_blocks :: "layout \<Rightarrow> state \<Rightarrow> (addr \<times> size_t) list" where
  "free_blocks L s = map (\<lambda>e. (list_entry L e, mem s (list_entry L e))) (free_list s)"

section \<open>Blocks and invariants\<close>

text \<open>
  A block is its start address and its total length in bytes, as natural numbers.
\<close>

type_synonym block = "nat \<times> nat"

text \<open>
  The blocks \<open>B\<close> tile the arena of \<open>n\<close> bytes at address \<open>a\<close>: each block has at least
  \<open>F\<close> bytes and lies inside the arena, two different blocks do not overlap, and every byte
  of the arena lies in some block.
\<close>

definition tiles :: "nat \<Rightarrow> nat \<Rightarrow> nat \<Rightarrow> block set \<Rightarrow> bool" where
  "tiles a n F B \<longleftrightarrow>
     finite B \<and>
     (\<forall>b\<in>B. F \<le> snd b \<and> a \<le> fst b \<and> fst b + snd b \<le> a + n) \<and>
     (\<forall>b\<in>B. \<forall>c\<in>B. b \<noteq> c \<longrightarrow> fst b + snd b \<le> fst c \<or> fst c + snd c \<le> fst b) \<and>
     (\<forall>i. a \<le> i \<and> i < a + n \<longrightarrow> (\<exists>b\<in>B. fst b \<le> i \<and> i < fst b + snd b))"

text \<open>
  The free blocks \<open>FS\<close> and the used blocks \<open>US\<close> together tile the arena, no block is both
  free and used, and no free block ends where another free block starts.
\<close>

definition well_split :: "nat \<Rightarrow> nat \<Rightarrow> nat \<Rightarrow> block set \<Rightarrow> block set \<Rightarrow> bool" where
  "well_split a n F FS US \<longleftrightarrow>
     tiles a n F (FS \<union> US) \<and> FS \<inter> US = {} \<and>
     (\<forall>b\<in>FS. \<forall>c\<in>FS. fst b + snd b \<noteq> fst c)"

text \<open>
  The block of a free-list element: the address of its \<^verbatim>\<open>struct free_block\<close> and the length
  stored there, which counts the header. The block of a pointer handed out by \<open>mem_alloc\<close>:
  the address of its \<^verbatim>\<open>struct used_block\<close>, and the header size plus the payload length
  stored there.
\<close>

definition free_span :: "layout \<Rightarrow> state \<Rightarrow> addr \<Rightarrow> block" where
  "free_span L s e = (unat (list_entry L e), unat (mem s (list_entry L e)))"

definition used_span :: "layout \<Rightarrow> state \<Rightarrow> addr \<Rightarrow> block" where
  "used_span L s p = (unat (p - sizeof_used_block L),
                 unat (sizeof_used_block L) + unat (mem s (p - sizeof_used_block L)))"

text \<open>
  What the caller and the platform owe the allocator. The used-block header is not empty and
  not larger than the free-block header, whose size is a positive \<^verbatim>\<open>long\<close>. The arena does
  not start at \<^verbatim>\<open>NULL\<close>, holds at least the free-block header that \<open>mem_init\<close> writes into
  it, and ends inside the address space. A request plus the used-block header fits a
  \<^verbatim>\<open>size_t\<close> (the spec leaves overflowing requests out of scope).
\<close>

definition valid_layout :: "layout \<Rightarrow> bool" where
  "valid_layout L \<longleftrightarrow>
     0 < sizeof_used_block L \<and> sizeof_used_block L \<le> sizeof_free_block L \<and>
     sizeof_free_block L < 2^63"

definition valid_arena :: "layout \<Rightarrow> addr \<Rightarrow> size_t \<Rightarrow> bool" where
  "valid_arena L base len \<longleftrightarrow>
     base \<noteq> 0 \<and> sizeof_free_block L \<le> len \<and> unat base + unat len < 2^64"

definition request_ok :: "layout \<Rightarrow> size_t \<Rightarrow> bool" where
  "request_ok L n \<longleftrightarrow> unat n + unat (sizeof_used_block L) < 2^64"

text \<open>
  The invariant of a state with outstanding pointers \<open>P\<close>: the free list holds no element
  twice, finitely many pointers are outstanding, and the free and used blocks split the
  arena. \<open>idle_inv\<close> adds that the lock is free.
\<close>

definition heap_inv :: "layout \<Rightarrow> addr \<Rightarrow> size_t \<Rightarrow> state \<Rightarrow> addr set \<Rightarrow> bool" where
  "heap_inv L base len s P \<longleftrightarrow>
     distinct (free_list s) \<and> finite P \<and>
     well_split (unat base) (unat len) (unat (sizeof_free_block L))
       (free_span L s ` set (free_list s)) (used_span L s ` P)"

definition idle_inv :: "layout \<Rightarrow> addr \<Rightarrow> size_t \<Rightarrow> state \<Rightarrow> addr set \<Rightarrow> bool" where
  "idle_inv L base len s P \<longleftrightarrow> \<not> gmutex s \<and> heap_inv L base len s P"

text \<open>
  Conservation, for a state with outstanding pointers \<open>P\<close>: every block lies inside the
  arena; every byte of the arena lies in exactly one block, counting the free-list entries and
  the outstanding pointers whose block holds the byte; and the free lengths plus the used
  spans add up to the arena length.
\<close>

definition in_block :: "nat \<Rightarrow> block \<Rightarrow> bool" where
  "in_block i b \<longleftrightarrow> fst b \<le> i \<and> i < fst b + snd b"

definition conservation :: "layout \<Rightarrow> addr \<Rightarrow> size_t \<Rightarrow> state \<Rightarrow> addr set \<Rightarrow> bool" where
  "conservation L base len s P \<longleftrightarrow>
     (\<forall>e\<in>set (free_list s). unat base \<le> fst (free_span L s e) \<and>
        fst (free_span L s e) + snd (free_span L s e) \<le> unat base + unat len) \<and>
     (\<forall>p\<in>P. unat base \<le> fst (used_span L s p) \<and>
        fst (used_span L s p) + snd (used_span L s p) \<le> unat base + unat len) \<and>
     (\<forall>i. unat base \<le> i \<and> i < unat base + unat len \<longrightarrow>
        length (filter (\<lambda>e. in_block i (free_span L s e)) (free_list s))
          + card {p \<in> P. in_block i (used_span L s p)} = 1) \<and>
     sum_list (map (\<lambda>e. snd (free_span L s e)) (free_list s)) + (\<Sum>p\<in>P. snd (used_span L s p))
       = unat len"

text \<open>
  The states a caller that keeps the contract can reach, with the pointers it holds: after
  \<open>mem_init\<close> on a free lock, after a completed \<open>mem_alloc\<close> (a null result adds no pointer),
  after a completed \<open>mem_free\<close> of a pointer it holds, and after a completed \<open>mem_free\<close> of
  the null pointer.
\<close>

inductive reachable :: "layout \<Rightarrow> addr \<Rightarrow> size_t \<Rightarrow> state \<Rightarrow> addr set \<Rightarrow> bool"
  for L :: layout and base :: addr and len :: size_t where
  init: "\<not> gmutex s0 \<Longrightarrow> reachable L base len (mem_init L base len s0) {}"
| alloc: "reachable L base len s P \<Longrightarrow> request_ok L n \<Longrightarrow> mem_alloc L n s = Some (p, s') \<Longrightarrow>
     reachable L base len s' (if p = 0 then P else insert p P)"
| free: "reachable L base len s P \<Longrightarrow> p \<in> P \<Longrightarrow> mem_free L p s = Some s' \<Longrightarrow>
     reachable L base len s' (P - {p})"
| free_null: "reachable L base len s P \<Longrightarrow> mem_free L 0 s = Some s' \<Longrightarrow>
     reachable L base len s' P"

text \<open>
  A caller that allocates the requested lengths one after the other and collects the
  pointers, and a caller that releases a list of pointers one after the other. \<open>None\<close> says
  that some call did not return.
\<close>

fun alloc_all :: "layout \<Rightarrow> size_t list \<Rightarrow> state \<Rightarrow> (addr list \<times> state) option" where
  "alloc_all L [] s = Some ([], s)"
| "alloc_all L (n # ns) s =
     (case mem_alloc L n s of
        None \<Rightarrow> None
      | Some (p, s') \<Rightarrow>
          (case alloc_all L ns s' of
             None \<Rightarrow> None
           | Some (ps, s'') \<Rightarrow> Some (p # ps, s'')))"

fun free_all :: "layout \<Rightarrow> addr list \<Rightarrow> state \<Rightarrow> state option" where
  "free_all L [] s = Some s"
| "free_all L (p # ps) s =
     (case mem_free L p s of None \<Rightarrow> None | Some s' \<Rightarrow> free_all L ps s')"

section \<open>A concrete arena\<close>

text \<open>
  The layout of an LP64 build (an 8-byte length, two 8-byte links) and an arena of 1024
  bytes at address 4096, initialised from a state in which the statically initialised lock
  is free.
\<close>

definition lp64 :: layout where
  "lp64 = \<lparr>sizeof_free_block = 24, sizeof_used_block = 8, offsetof_elem = 8\<rparr>"

definition fresh :: state where
  "fresh = \<lparr>mem = (\<lambda>_. 0), free_list = [], gmutex = False\<rparr>"

definition arena0 :: state where
  "arena0 = mem_init lp64 4096 1024 fresh"

text \<open>An arena of 64 bytes at the same address.\<close>

definition arena64 :: state where
  "arena64 = mem_init lp64 4096 64 fresh"

text \<open>
  A fragmented free list over the arena of 1024 bytes: the block at its base and the block of
  108 bytes at its top, with used blocks in between. It is the free list that the allocations
  of 100, 200 and 50 bytes followed by the release of the first one leave behind.
\<close>

definition fragmented :: state where
  "fragmented = \<lparr>mem = (\<lambda>_. 0)(4096 := 650, 5012 := 108),
     free_list = [5020, 4104], gmutex = False\<rparr>"

text \<open>
  The states of the arena of 1024 bytes after the allocation of 100 bytes, after the
  allocation of 200 more, and after the release of the first pointer; and its state after
  the allocations of 100, 200 and 50 bytes.
\<close>

definition after_alloc_100 :: state where
  "after_alloc_100 = \<lparr>mem = (\<lambda>_. 0)(4096 := 916, 5012 := 100), free_list = [4104], gmutex = False\<rparr>"

definition after_alloc_200 :: state where
  "after_alloc_200 = \<lparr>mem = (\<lambda>_. 0)(5012 := 100, 4096 := 708, 4804 := 200), free_list = [4104], gmutex = False\<rparr>"

definition after_free_first :: state where
  "after_free_first = \<lparr>mem = (\<lambda>_. 0)(4096 := 708, 4804 := 200, 5012 := 108), free_list = [5020, 4104], gmutex = False\<rparr>"

definition after_three_allocs :: state where
  "after_three_allocs = \<lparr>mem = (\<lambda>_. 0)(5012 := 100, 4804 := 200, 4096 := 650, 4746 := 50),
     free_list = [4104], gmutex = False\<rparr>"

section \<open>Basic facts\<close>

lemmas eval_defs =
  arena0_def arena64_def fresh_def lp64_def mem_init_def mem_alloc_def mem_free_def
  pthread_mutex_lock_def pthread_mutex_unlock_def list_entry_def elem_of_def
  list_push_back_def list_remove_def clamp_length_def min_alloc_size_def
  free_blocks_def Let_def

lemma compare_neq: "compare a b = (a \<noteq> b)"
  by (simp add: compare_def c_bool_def)

lemma list_insert_ordered_compare:
  "el \<notin> set es \<Longrightarrow> list_insert_ordered es el compare = el # es"
  by (cases es) (auto simp: compare_neq)

lemma unlock_lock: "\<not> gmutex s \<Longrightarrow> pthread_mutex_unlock (s\<lparr>gmutex := True\<rparr>) = s"
  by (cases s) (simp add: pthread_mutex_unlock_def)

lemma mem_alloc_loop_none:
  "\<forall>e\<in>set es. mem s (list_entry L e) < sz \<Longrightarrow>
   mem_alloc_loop L len sz es s = (0, pthread_mutex_unlock s)"
  by (induction es) (simp_all add: Let_def)

lemma mem_alloc_loop_skip:
  "\<forall>e\<in>set pre. mem s (list_entry L e) < sz \<Longrightarrow>
   mem_alloc_loop L len sz (pre @ es) s = mem_alloc_loop L len sz es s"
  by (induction pre) (simp_all add: Let_def)

lemma sint_small:
  fixes a :: "64 word"
  assumes "a < 2^63"
  shows "sint a = uint a"
proof -
  have "uint a < uint (2^63 :: 64 word)" using assms by (simp only: word_less_def)
  then have "uint a < 2^63" by simp
  moreover have "- (2^63) \<le> uint a" by (simp add: order_trans [of _ 0])
  ultimately have "signed_take_bit 63 (uint a) = uint a"
    by (rule signed_take_bit_int_eq_self [rotated])
  then show ?thesis
    by (simp add: sint_uint)
qed

lemma sless_small:
  fixes a b :: "64 word"
  assumes "a < 2^63" "b < 2^63"
  shows "(a <s b) = (a < b)"
  using assms by (simp add: word_sless_alt sint_small word_less_def)

lemma le_sub_small:
  fixes a b :: "64 word"
  assumes "b \<le> a" "a < 2^63"
  shows "a - b < 2^63"
  using assms by (metis word_sub_le order_le_less_trans)

lemma unat_plus_le: "unat (a + b) \<le> unat a + unat (b :: 64 word)"
  by (simp add: unat_word_ariths)

section \<open>Allocation\<close>

text \<open>
  C3. With the lock free, let \<open>e\<close> be the first element in list order whose block length is at
  least the required total size (the clamped request plus the used-block header size, as the
  code computes it). When the leftover is smaller than the free-block header, the whole block
  is consumed: the used header lies at the block's own address, its length is the clamped
  request plus the leftover, and the element leaves the list. Otherwise the used block is
  carved from the high-address end: the free block keeps its address and its length drops by
  exactly the required size, and the used header with the clamped length lies right above it.
  In both cases the pointer returned is the address just past the used header. The block
  length and the header size are taken below \<open>2^63\<close>, the range of the \<^verbatim>\<open>long\<close> in which the
  code holds the leftover.
\<close>

theorem mem_alloc_first_fit:
  fixes L :: layout and n :: size_t and s :: state
  defines "len \<equiv> clamp_length L n"
  defines "size_needed \<equiv> clamp_length L n + sizeof_used_block L"
  assumes unlocked: "\<not> gmutex s"
    and list: "free_list s = pre @ e # post"
    and small: "\<forall>e'\<in>set pre. mem s (list_entry L e') < size_needed"
    and fits: "size_needed \<le> mem s (list_entry L e)"
    and F: "sizeof_free_block L < 2^63"
    and fbl: "mem s (list_entry L e) < 2^63"
  shows "mem_alloc L n s = Some
     (let fb = list_entry L e; leftover = mem s fb - size_needed in
      if leftover < sizeof_free_block L
      then (fb + sizeof_used_block L,
            s\<lparr>mem := (mem s)(fb := len + leftover), free_list := pre @ post\<rparr>)
      else (fb + leftover + sizeof_used_block L,
            s\<lparr>mem := (mem s)(fb := leftover, fb + leftover := len)\<rparr>))"
proof -
  let ?fb = "list_entry L e"
  let ?lo = "mem s ?fb - size_needed"
  let ?s1 = "s\<lparr>gmutex := True\<rparr>"
  have lo: "?lo < 2^63" using fits fbl by (rule le_sub_small)
  have sl: "(?lo <s sizeof_free_block L) = (?lo < sizeof_free_block L)"
    using lo F by (rule sless_small)
  have notin: "e \<notin> set pre" using small fits by auto
  have rem: "remove1 e (pre @ e # post) = pre @ post"
    using notin by (simp add: remove1_append)
  have skip: "mem_alloc_loop L len size_needed (free_list ?s1) ?s1
      = mem_alloc_loop L len size_needed (e # post) ?s1"
    using small by (simp add: list mem_alloc_loop_skip)
  have nl: "\<not> mem s ?fb < size_needed" using fits by simp
  show ?thesis
  proof (cases "?lo < sizeof_free_block L")
    case True
    have "mem_alloc_loop L len size_needed (e # post) ?s1 =
       (?fb + sizeof_used_block L,
        s\<lparr>mem := (mem s)(?fb := len + ?lo), free_list := pre @ post\<rparr>)"
      using nl True sl unlocked
      by (auto simp: Let_def list rem list_remove_def pthread_mutex_unlock_def
            size_needed_def len_def intro!: state.equality)
    then show ?thesis using True skip unlocked
      by (simp add: mem_alloc_def pthread_mutex_lock_def Let_def len_def size_needed_def)
  next
    case False
    have "mem_alloc_loop L len size_needed (e # post) ?s1 =
       (?fb + ?lo + sizeof_used_block L, s\<lparr>mem := (mem s)(?fb := ?lo, ?fb + ?lo := len)\<rparr>)"
      using nl False sl unlocked
      by (auto simp: Let_def pthread_mutex_unlock_def intro!: state.equality)
    then show ?thesis using False skip unlocked
      by (simp add: mem_alloc_def pthread_mutex_lock_def Let_def len_def size_needed_def)
  qed
qed

theorem mem_alloc_first_fit_witness:
  "mem_alloc lp64 100 arena0 =
     Some (5020, arena0\<lparr>mem := (mem arena0)(4096 := 916, 5012 := 100)\<rparr>)
   \<and> mem_alloc lp64 1000 arena0 =
     Some (4104, arena0\<lparr>mem := (mem arena0)(4096 := 1016), free_list := []\<rparr>)"
proof -
  have a: "free_list arena0 = [] @ 4104 # []" "\<not> gmutex arena0" "mem arena0 4096 = 1024"
    by (simp_all add: arena0_def mem_init_def lp64_def fresh_def elem_of_def list_push_back_def)
  have 1: "mem_alloc lp64 100 arena0 =
     Some (5020, arena0\<lparr>mem := (mem arena0)(4096 := 916, 5012 := 100)\<rparr>)"
    using mem_alloc_first_fit [of arena0 "[]" 4104 "[]" lp64 100] a
    by (simp add: lp64_def list_entry_def clamp_length_def min_alloc_size_def)
  have 2: "mem_alloc lp64 1000 arena0 =
     Some (4104, arena0\<lparr>mem := (mem arena0)(4096 := 1016), free_list := []\<rparr>)"
    using mem_alloc_first_fit [of arena0 "[]" 4104 "[]" lp64 1000] a
    by (simp add: lp64_def list_entry_def clamp_length_def min_alloc_size_def)
  from 1 2 show ?thesis by simp
qed

text \<open>
  C6. With the lock free, when no block of the free list reaches the required total size (the
  clamped request plus the used-block header size, as the code computes it), \<open>mem_alloc\<close>
  returns \<^verbatim>\<open>NULL\<close> and the state after the call is the state before it: the free list, every
  stored length and the lock.
\<close>

theorem mem_alloc_out_of_memory:
  assumes "\<not> gmutex s"
    and "\<forall>e\<in>set (free_list s).
           mem s (list_entry L e) < clamp_length L n + sizeof_used_block L"
  shows "mem_alloc L n s = Some (0, s)"
  using assms
  by (simp add: mem_alloc_def pthread_mutex_lock_def Let_def mem_alloc_loop_none unlock_lock)

theorem mem_alloc_out_of_memory_witness:
  "mem_alloc lp64 100 arena64 = Some (0, arena64) \<and> free_blocks lp64 arena64 = [(4096, 64)]"
  using mem_alloc_out_of_memory [of arena64 lp64 100]
  by (simp add: eval_defs)

text \<open>
  C10. With the lock free, when no single block of the free list reaches the required total
  size, \<open>mem_alloc\<close> returns \<^verbatim>\<open>NULL\<close>, whatever the free lengths add up to: blocks are never
  combined to serve one request. In the fragmented arena the two free blocks hold 758 bytes
  together and a request that needs 708 fails.
\<close>

theorem mem_alloc_no_cross_block:
  assumes "\<not> gmutex s"
    and "\<forall>e\<in>set (free_list s).
           mem s (list_entry L e) < clamp_length L n + sizeof_used_block L"
  shows "map_option fst (mem_alloc L n s) = Some 0"
  using assms
  by (simp add: mem_alloc_def pthread_mutex_lock_def Let_def mem_alloc_loop_none)

theorem mem_alloc_no_cross_block_witness:
  "free_blocks lp64 fragmented = [(5012, 108), (4096, 650)]
   \<and> unat (clamp_length lp64 700 + sizeof_used_block lp64)
       \<le> sum_list (map (\<lambda>(a, l). unat l) (free_blocks lp64 fragmented))
   \<and> map_option fst (mem_alloc lp64 700 fragmented) = Some 0"
  using mem_alloc_no_cross_block [of fragmented lp64 700]
  by (simp add: fragmented_def eval_defs)

lemma mem_alloc_loop_span:
  assumes "mem_alloc_loop L len sz es s = (p, s')" and "p \<noteq> 0"
    and "sz = len + sizeof_used_block L"
  shows "unat sz \<le> unat (sizeof_used_block L) + unat (mem s' (p - sizeof_used_block L))"
  using assms
proof (induction es)
  case Nil
  then show ?case by simp
next
  case (Cons e es)
  let ?fb = "list_entry L e"
  let ?U = "sizeof_used_block L"
  show ?case
  proof (cases "mem s ?fb < sz")
    case True
    with Cons show ?thesis by (simp add: Let_def)
  next
    case False
    then have ge: "unat sz \<le> unat (mem s ?fb)" by (simp add: word_less_nat_alt)
    show ?thesis
    proof (cases "mem s ?fb - sz <s sizeof_free_block L")
      case True
      with False Cons.prems have p: "p = ?fb + ?U"
        and m: "mem s' ?fb = len + (mem s ?fb - sz)"
        by (auto simp: Let_def pthread_mutex_unlock_def)
      have "mem s ?fb = (len + (mem s ?fb - sz)) + ?U" using Cons.prems(3) by simp
      then have "unat (mem s ?fb) \<le> unat (len + (mem s ?fb - sz)) + unat ?U"
        by (metis unat_plus_le)
      with ge p m show ?thesis by simp
    next
      case split: False
      with False Cons.prems have p: "p = ?fb + (mem s ?fb - sz) + ?U"
        and m: "mem s' (?fb + (mem s ?fb - sz)) = len"
        by (auto simp: Let_def pthread_mutex_unlock_def)
      have "unat sz \<le> unat len + unat ?U" using Cons.prems(3) by (simp add: unat_plus_le)
      with p m show ?thesis by simp
    qed
  qed
qed

text \<open>
  C9. For a request below the minimum payload size (zero included), a call of \<open>mem_alloc\<close>
  that returns a pointer leaves a used block whose total span, header plus stored payload
  length, is at least the size of a free-block header: freed alone, it can hold one.
\<close>

theorem mem_alloc_min_size_clamp:
  assumes "n < min_alloc_size L" and "mem_alloc L n s = Some (p, s')" and "p \<noteq> 0"
  shows "unat (sizeof_free_block L)
     \<le> unat (sizeof_used_block L) + unat (mem s' (p - sizeof_used_block L))"
proof -
  have c: "clamp_length L n = min_alloc_size L" using assms(1) by (simp add: clamp_length_def)
  have sz: "min_alloc_size L + sizeof_used_block L = sizeof_free_block L"
    by (simp add: min_alloc_size_def)
  from assms(2) obtain s1 where
    "mem_alloc_loop L (min_alloc_size L) (sizeof_free_block L) (free_list s1) s1 = (p, s')"
    by (auto simp: mem_alloc_def Let_def c sz split: option.splits)
  from mem_alloc_loop_span [OF this assms(3)] sz show ?thesis by simp
qed

theorem mem_alloc_min_size_clamp_witness:
  "(0 :: size_t) < min_alloc_size lp64
   \<and> mem_alloc lp64 0 arena0 =
       Some (5104, arena0\<lparr>mem := (mem arena0)(4096 := 1000, 5096 := 16)\<rparr>)
   \<and> unat (sizeof_free_block lp64)
       \<le> unat (sizeof_used_block lp64)
         + unat (mem (arena0\<lparr>mem := (mem arena0)(4096 := 1000, 5096 := 16)\<rparr>)
                  (5104 - sizeof_used_block lp64))"
proof -
  have a: "(0 :: size_t) < min_alloc_size lp64"
    by (simp add: min_alloc_size_def lp64_def)
  have b: "mem_alloc lp64 0 arena0 =
       Some (5104, arena0\<lparr>mem := (mem arena0)(4096 := 1000, 5096 := 16)\<rparr>)"
    by (simp add: eval_defs)
  from mem_alloc_min_size_clamp [OF a b] a b show ?thesis by simp
qed

section \<open>Release\<close>

text \<open>
  C8. \<open>compare\<close> answers true for a first argument at the higher address: converted to a
  truth value, its result says that the two addresses differ, not that the first is smaller.
\<close>

theorem compare_true_on_greater:
  "compare 8192 4096 \<and> \<not> ((8192 :: addr) < 4096) \<and> \<not> ((8192 :: addr) <s 4096)"
  by (simp add: compare_def c_bool_def)

text \<open>
  C2. In the arena of 1024 bytes, after the allocations of 100 and 200 bytes and the release
  of the first pointer, the free list holds the block at 5012 before the block at 4096: it is
  not ascending by address, and the lock is free.
\<close>

theorem free_list_order_broken:
  "Option.bind (mem_alloc lp64 100 arena0) (\<lambda>(p1, s1).
   Option.bind (mem_alloc lp64 200 s1) (\<lambda>(p2, s2).
   Option.bind (mem_free lp64 p1 s2) (\<lambda>s3.
     Some (p1, p2, free_blocks lp64 s3, gmutex s3))))
   = Some (5020, 4812, [(5012, 108), (4096, 708)], False)"
  by (simp add: eval_defs compare_neq)

text \<open>
  C4. In the arena of 1024 bytes, after the allocations of 100, 200 and 50 bytes, the release
  of the first pointer has no free neighbour and the release of the second one has a successor
  only. Both new entries land at the head of the list, before the block at 4096, and not at
  the position that keeps the list in address order.
\<close>

theorem mem_free_inserts_at_head:
  "Option.bind (mem_alloc lp64 100 arena0) (\<lambda>(p1, s1).
   Option.bind (mem_alloc lp64 200 s1) (\<lambda>(p2, s2).
   Option.bind (mem_alloc lp64 50 s2) (\<lambda>(p3, s3).
   Option.bind (mem_free lp64 p1 s3) (\<lambda>s4.
   Option.bind (mem_free lp64 p2 s4) (\<lambda>s5.
     Some (free_blocks lp64 s3, free_blocks lp64 s4, free_blocks lp64 s5))))))
   = Some ([(4096, 650)], [(5012, 108), (4096, 650)], [(4804, 316), (4096, 650)])"
  by (simp add: eval_defs compare_neq)

text \<open>
  C5. \<open>mem_free\<close> of the null pointer returns with the lock held, and the next call of
  \<open>mem_alloc\<close> or \<open>mem_free\<close> then waits for the lock forever.
\<close>

theorem mem_free_null_keeps_lock:
  "mem_free lp64 0 arena0 = Some (arena0\<lparr>gmutex := True\<rparr>)
   \<and> mem_alloc lp64 100 (arena0\<lparr>gmutex := True\<rparr>) = None
   \<and> mem_free lp64 5020 (arena0\<lparr>gmutex := True\<rparr>) = None"
  by (simp add: eval_defs)

section \<open>Tilings\<close>

lemma tiles_merge:
  assumes "tiles a n F B" "0 < F" "(x, l) \<in> B" "(x + l, m) \<in> B"
  shows "tiles a n F (insert (x, l + m) (B - {(x, l), (x + l, m)}))"
  unfolding tiles_def
proof (intro conjI)
  let ?B = "insert (x, l + m) (B - {(x, l), (x + l, m)})"
  from assms have fin: "finite B"
    and bnd: "\<And>b. b \<in> B \<Longrightarrow> F \<le> snd b \<and> a \<le> fst b \<and> fst b + snd b \<le> a + n"
    and dis: "\<And>b c. b \<in> B \<Longrightarrow> c \<in> B \<Longrightarrow> b \<noteq> c \<Longrightarrow> fst b + snd b \<le> fst c \<or> fst c + snd c \<le> fst b"
    and cov: "\<And>i. a \<le> i \<Longrightarrow> i < a + n \<Longrightarrow> \<exists>b\<in>B. fst b \<le> i \<and> i < fst b + snd b"
    unfolding tiles_def by blast+
  show "finite ?B" using fin by simp
  show "\<forall>b\<in>?B. F \<le> snd b \<and> a \<le> fst b \<and> fst b + snd b \<le> a + n"
    using bnd[OF assms(3)] bnd[OF assms(4)] bnd by auto
  show "\<forall>b\<in>?B. \<forall>c\<in>?B. b \<noteq> c \<longrightarrow> fst b + snd b \<le> fst c \<or> fst c + snd c \<le> fst b"
  proof (intro ballI impI)
    fix b c assume b: "b \<in> ?B" and c: "c \<in> ?B" and ne: "b \<noteq> c"
    have aux: "fst (x, l + m) + snd (x, l + m) \<le> fst d \<or> fst d + snd d \<le> fst (x, l + m)"
      if "d \<in> B" "d \<noteq> (x, l)" "d \<noteq> (x + l, m)" for d
      using dis[OF that(1) assms(3) that(2)] dis[OF that(1) assms(4) that(3)]
        bnd[OF assms(3)] bnd[OF assms(4)] bnd[OF that(1)] assms(2) by auto
    show "fst b + snd b \<le> fst c \<or> fst c + snd c \<le> fst b"
    proof (cases "b = (x, l + m)")
      case True
      with c ne have "c \<in> B" "c \<noteq> (x, l)" "c \<noteq> (x + l, m)" by auto
      from aux[OF this] True show ?thesis by simp
    next
      case False
      with b have b': "b \<in> B" "b \<noteq> (x, l)" "b \<noteq> (x + l, m)" by auto
      show ?thesis
      proof (cases "c = (x, l + m)")
        case True
        from aux[OF b'] True show ?thesis by auto
      next
        case False
        with c have "c \<in> B" by auto
        from dis[OF b'(1) this ne] show ?thesis .
      qed
    qed
  qed
  show "\<forall>i. a \<le> i \<and> i < a + n \<longrightarrow> (\<exists>b\<in>?B. fst b \<le> i \<and> i < fst b + snd b)"
  proof (intro allI impI)
    fix i assume "a \<le> i \<and> i < a + n"
    then obtain b where b: "b \<in> B" "fst b \<le> i" "i < fst b + snd b" using cov by blast
    show "\<exists>b\<in>?B. fst b \<le> i \<and> i < fst b + snd b"
    proof (cases "b = (x, l) \<or> b = (x + l, m)")
      case True
      with b have "fst (x, l + m) \<le> i \<and> i < fst (x, l + m) + snd (x, l + m)" by auto
      then show ?thesis by blast
    next
      case False
      with b show ?thesis by blast
    qed
  qed
qed

lemma tiles_split:
  assumes "tiles a n F B" "0 < F" "(x, l) \<in> B" "F \<le> k" "k + F \<le> l"
  shows "tiles a n F (insert (x, l - k) (insert (x + (l - k), k) (B - {(x, l)})))"
  unfolding tiles_def
proof (intro conjI)
  let ?B = "insert (x, l - k) (insert (x + (l - k), k) (B - {(x, l)}))"
  from assms have fin: "finite B"
    and bnd: "\<And>b. b \<in> B \<Longrightarrow> F \<le> snd b \<and> a \<le> fst b \<and> fst b + snd b \<le> a + n"
    and dis: "\<And>b c. b \<in> B \<Longrightarrow> c \<in> B \<Longrightarrow> b \<noteq> c \<Longrightarrow> fst b + snd b \<le> fst c \<or> fst c + snd c \<le> fst b"
    and cov: "\<And>i. a \<le> i \<Longrightarrow> i < a + n \<Longrightarrow> \<exists>b\<in>B. fst b \<le> i \<and> i < fst b + snd b"
    unfolding tiles_def by blast+
  show "finite ?B" using fin by simp
  show "\<forall>b\<in>?B. F \<le> snd b \<and> a \<le> fst b \<and> fst b + snd b \<le> a + n"
    using bnd[OF assms(3)] bnd assms(4,5) by auto
  have aux: "fst (x, l) + snd (x, l) \<le> fst d \<or> fst d + snd d \<le> fst (x, l)"
    if "d \<in> B" "d \<noteq> (x, l)" for d
    using dis[OF assms(3) that(1)] that(2) by auto
  show "\<forall>b\<in>?B. \<forall>c\<in>?B. b \<noteq> c \<longrightarrow> fst b + snd b \<le> fst c \<or> fst c + snd c \<le> fst b"
  proof (intro ballI impI)
    fix b c assume b: "b \<in> ?B" and c: "c \<in> ?B" and ne: "b \<noteq> c"
    consider "b = (x, l - k)" | "b = (x + (l - k), k)" | "b \<in> B" "b \<noteq> (x, l)" using b by auto
    then show "fst b + snd b \<le> fst c \<or> fst c + snd c \<le> fst b"
    proof cases
      case 1
      consider "c = (x + (l - k), k)" | "c \<in> B" "c \<noteq> (x, l)" using c ne 1 by auto
      then show ?thesis
      proof cases
        case 1 with \<open>b = (x, l - k)\<close> show ?thesis by simp
      next
        case 2 from aux[OF this] 1 assms(4,5) show ?thesis by auto
      qed
    next
      case 2
      consider "c = (x, l - k)" | "c \<in> B" "c \<noteq> (x, l)" using c ne 2 by auto
      then show ?thesis
      proof cases
        case 1 with 2 show ?thesis by simp
      next
        case 2 from aux[OF this] \<open>b = (x + (l - k), k)\<close> assms(4,5) show ?thesis by auto
      qed
    next
      case 3
      consider "c = (x, l - k)" | "c = (x + (l - k), k)" | "c \<in> B" "c \<noteq> (x, l)" using c by auto
      then show ?thesis
      proof cases
        case 1 from aux[OF 3] 1 assms(4,5) show ?thesis by auto
      next
        case 2 from aux[OF 3] 2 assms(4,5) show ?thesis by auto
      next
        case 3 from dis[OF \<open>b \<in> B\<close> 3(1) ne] show ?thesis .
      qed
    qed
  qed
  show "\<forall>i. a \<le> i \<and> i < a + n \<longrightarrow> (\<exists>b\<in>?B. fst b \<le> i \<and> i < fst b + snd b)"
  proof (intro allI impI)
    fix i assume "a \<le> i \<and> i < a + n"
    then obtain b where b: "b \<in> B" "fst b \<le> i" "i < fst b + snd b" using cov by blast
    show "\<exists>b\<in>?B. fst b \<le> i \<and> i < fst b + snd b"
    proof (cases "b = (x, l)")
      case True
      show ?thesis
      proof (cases "i < x + (l - k)")
        case True
        with b \<open>b = (x, l)\<close> have "fst (x, l - k) \<le> i \<and> i < fst (x, l - k) + snd (x, l - k)" by auto
        then show ?thesis by blast
      next
        case False
        with b \<open>b = (x, l)\<close> assms(5)
        have "fst (x + (l - k), k) \<le> i \<and> i < fst (x + (l - k), k) + snd (x + (l - k), k)" by auto
        then show ?thesis by blast
      qed
    next
      case False
      with b show ?thesis by blast
    qed
  qed
qed

lemma tiles_bounds:
  "tiles a n F B \<Longrightarrow> b \<in> B \<Longrightarrow> F \<le> snd b \<and> a \<le> fst b \<and> fst b + snd b \<le> a + n"
  unfolding tiles_def by blast

lemma tiles_disjoint:
  "tiles a n F B \<Longrightarrow> b \<in> B \<Longrightarrow> c \<in> B \<Longrightarrow> b \<noteq> c \<Longrightarrow>
   fst b + snd b \<le> fst c \<or> fst c + snd c \<le> fst b"
  unfolding tiles_def by blast

lemma set_eq_split:
  "q \<notin> US \<Longrightarrow> insert p (FS - {q}) \<union> insert r US = insert p (insert r ((FS \<union> US) - {q}))"
  by blast

lemma set_eq_merge:
  "q \<in> FS \<Longrightarrow> r \<in> US \<Longrightarrow> FS \<inter> US = {} \<Longrightarrow>
   insert p (FS - {q}) \<union> (US - {r}) = insert p ((FS \<union> US) - {q, r})"
  by blast

lemma set_eq_merge':
  "q \<in> FS \<Longrightarrow> r \<in> US \<Longrightarrow> FS \<inter> US = {} \<Longrightarrow>
   insert p (FS - {q}) \<union> (US - {r}) = insert p ((FS \<union> US) - {r, q})"
  by blast

lemma set_disj_split:
  "FS \<inter> US = {} \<Longrightarrow> p \<notin> US \<Longrightarrow> r \<notin> FS \<Longrightarrow> p \<noteq> r \<Longrightarrow>
   insert p (FS - {q}) \<inter> insert r US = {}"
  by blast

lemma set_disj_merge:
  "FS \<inter> US = {} \<Longrightarrow> p \<notin> US \<Longrightarrow> insert p (FS - {q}) \<inter> (US - {r}) = {}"
  by blast

lemma tiles_start_unique:
  assumes "tiles a n F B" "0 < F" "b \<in> B" "c \<in> B" "fst b = fst c"
  shows "b = c"
proof (rule ccontr)
  assume "b \<noteq> c"
  with assms have "fst b + snd b \<le> fst c \<or> fst c + snd c \<le> fst b"
    and "F \<le> snd b" and "F \<le> snd c"
    unfolding tiles_def by blast+
  with assms(2,5) show False by auto
qed

lemma well_split_consume:
  assumes "well_split a n F FS US" "b \<in> FS"
  shows "well_split a n F (FS - {b}) (insert b US)"
proof -
  have "(FS - {b}) \<union> insert b US = FS \<union> US" using assms(2) by auto
  with assms show ?thesis unfolding well_split_def by auto
qed

lemma well_split_release:
  assumes "well_split a n F FS US" "0 < F" "b \<in> US"
    and "\<forall>c\<in>FS. fst c + snd c \<noteq> fst b \<and> fst b + snd b \<noteq> fst c"
  shows "well_split a n F (insert b FS) (US - {b})"
proof -
  have u: "insert b FS \<union> (US - {b}) = FS \<union> US" using assms(3) by auto
  have "F \<le> snd b" using assms(1,3) unfolding well_split_def tiles_def by blast
  with assms(2) have "fst b + snd b \<noteq> fst b" by simp
  with assms u show ?thesis unfolding well_split_def by auto
qed

lemma well_split_split:
  assumes "well_split a n F FS US" "0 < F" "(x, l) \<in> FS" "F \<le> k" "k + F \<le> l"
  shows "well_split a n F (insert (x, l - k) (FS - {(x, l)})) (insert (x + (l - k), k) US)"
proof -
  let ?B = "FS \<union> US"
  from assms(1) have t: "tiles a n F ?B" and d: "FS \<inter> US = {}"
    and adj: "\<And>b c. b \<in> FS \<Longrightarrow> c \<in> FS \<Longrightarrow> fst b + snd b \<noteq> fst c"
    unfolding well_split_def by blast+
  have in_B: "(x, l) \<in> ?B" using assms(3) by simp
  have notU: "(x, l) \<notin> US" using d assms(3) by auto
  have su: "\<And>c. c \<in> ?B \<Longrightarrow> fst c = x \<Longrightarrow> c = (x, l)"
    using tiles_start_unique[OF t assms(2) _ in_B] by simp
  have dis: "\<And>c. c \<in> ?B \<Longrightarrow> c \<noteq> (x, l) \<Longrightarrow> x + l \<le> fst c \<or> fst c + snd c \<le> x"
    using tiles_disjoint[OF t in_B] by fastforce
  have pos: "\<And>c. c \<in> ?B \<Longrightarrow> 0 < snd c" using tiles_bounds[OF t] assms(2) by fastforce
  have eq: "insert (x, l - k) (FS - {(x, l)}) \<union> insert (x + (l - k), k) US
      = insert (x, l - k) (insert (x + (l - k), k) (?B - {(x, l)}))"
    using notU by (rule set_eq_split)
  have t': "tiles a n F (insert (x, l - k) (FS - {(x, l)}) \<union> insert (x + (l - k), k) US)"
    unfolding eq by (rule tiles_split[OF t assms(2) in_B assms(4,5)])
  have new_notin: "(x + (l - k), k) \<notin> FS"
  proof
    assume "(x + (l - k), k) \<in> FS"
    then have "(x + (l - k), k) \<in> ?B" by simp
    moreover have "(x + (l - k), k) \<noteq> (x, l)" using assms(2,4,5) by auto
    ultimately show False using dis[of "(x + (l - k), k)"] assms(2,4,5) by auto
  qed
  have low_notin: "(x, l - k) \<notin> US"
  proof
    assume "(x, l - k) \<in> US"
    then have "(x, l - k) = (x, l)" using su[of "(x, l - k)"] by simp
    with notU \<open>(x, l - k) \<in> US\<close> show False by simp
  qed
  have "(x, l - k) \<noteq> (x + (l - k), k)" using assms(2,4,5) by auto
  with d low_notin new_notin
  have d': "insert (x, l - k) (FS - {(x, l)}) \<inter> insert (x + (l - k), k) US = {}"
    by (rule set_disj_split)
  have adj': "\<forall>b\<in>insert (x, l - k) (FS - {(x, l)}). \<forall>c\<in>insert (x, l - k) (FS - {(x, l)}).
      fst b + snd b \<noteq> fst c"
  proof (intro ballI)
    fix b c
    assume b: "b \<in> insert (x, l - k) (FS - {(x, l)})"
      and c: "c \<in> insert (x, l - k) (FS - {(x, l)})"
    show "fst b + snd b \<noteq> fst c"
    proof (cases "b = (x, l - k)")
      case True
      show ?thesis
      proof (cases "c = (x, l - k)")
        case True with \<open>b = (x, l - k)\<close> assms(2,4,5) show ?thesis by auto
      next
        case False
        with c have "c \<in> ?B" "c \<noteq> (x, l)" by auto
        from dis[OF this] pos[OF this(1)] True assms(2,4,5) show ?thesis by auto
      qed
    next
      case False
      with b have bF: "b \<in> FS" by auto
      show ?thesis
      proof (cases "c = (x, l - k)")
        case True with adj[OF bF assms(3)] show ?thesis by simp
      next
        case False
        with c have "c \<in> FS" by auto
        from adj[OF bF this] show ?thesis .
      qed
    qed
  qed
  from t' d' adj' show ?thesis unfolding well_split_def by blast
qed

lemma well_split_merge_before:
  assumes "well_split a n F FS US" "0 < F" "(y, m) \<in> FS" "(y + m, l) \<in> US"
    and "\<forall>c\<in>FS. fst c \<noteq> y + m + l"
  shows "well_split a n F (insert (y, m + l) (FS - {(y, m)})) (US - {(y + m, l)})"
proof -
  let ?B = "FS \<union> US"
  from assms(1) have t: "tiles a n F ?B" and d: "FS \<inter> US = {}"
    and adj: "\<And>b c. b \<in> FS \<Longrightarrow> c \<in> FS \<Longrightarrow> fst b + snd b \<noteq> fst c"
    unfolding well_split_def by blast+
  have inB: "(y, m) \<in> ?B" "(y + m, l) \<in> ?B" using assms(3,4) by simp_all
  have pos: "\<And>c. c \<in> ?B \<Longrightarrow> 0 < snd c" using tiles_bounds[OF t] assms(2) by fastforce
  have su: "\<And>c. c \<in> ?B \<Longrightarrow> fst c = y \<Longrightarrow> c = (y, m)"
    using tiles_start_unique[OF t assms(2) _ inB(1)] by simp
  have lpos: "0 < l" using pos[OF inB(2)] by simp
  have mpos: "0 < m" using pos[OF inB(1)] by simp
  have new_notin: "(y, m + l) \<notin> ?B" using su[of "(y, m + l)"] lpos by auto
  have eq: "insert (y, m + l) (FS - {(y, m)}) \<union> (US - {(y + m, l)})
      = insert (y, m + l) (?B - {(y, m), (y + m, l)})"
    using assms(3,4) d by (rule set_eq_merge)
  have t': "tiles a n F (insert (y, m + l) (FS - {(y, m)}) \<union> (US - {(y + m, l)}))"
    unfolding eq by (rule tiles_merge[OF t assms(2) inB])
  have d': "insert (y, m + l) (FS - {(y, m)}) \<inter> (US - {(y + m, l)}) = {}"
    using d new_notin by (intro set_disj_merge) auto
  have adj': "\<forall>b\<in>insert (y, m + l) (FS - {(y, m)}). \<forall>c\<in>insert (y, m + l) (FS - {(y, m)}).
      fst b + snd b \<noteq> fst c"
  proof (intro ballI)
    fix b c
    assume b: "b \<in> insert (y, m + l) (FS - {(y, m)})"
      and c: "c \<in> insert (y, m + l) (FS - {(y, m)})"
    show "fst b + snd b \<noteq> fst c"
    proof (cases "b = (y, m + l)")
      case True
      show ?thesis
      proof (cases "c = (y, m + l)")
        case True with \<open>b = (y, m + l)\<close> lpos show ?thesis by auto
      next
        case False
        with c have "c \<in> FS" by auto
        with assms(5) True show ?thesis by auto
      qed
    next
      case False
      with b have bF: "b \<in> FS" by auto
      show ?thesis
      proof (cases "c = (y, m + l)")
        case True with adj[OF bF assms(3)] show ?thesis by simp
      next
        case False
        with c have "c \<in> FS" by auto
        from adj[OF bF this] show ?thesis .
      qed
    qed
  qed
  from t' d' adj' show ?thesis unfolding well_split_def by blast
qed

lemma well_split_merge_after:
  assumes "well_split a n F FS US" "0 < F" "(x, l) \<in> US" "(x + l, m) \<in> FS"
    and "\<forall>c\<in>FS. fst c + snd c \<noteq> x"
  shows "well_split a n F (insert (x, l + m) (FS - {(x + l, m)})) (US - {(x, l)})"
proof -
  let ?B = "FS \<union> US"
  from assms(1) have t: "tiles a n F ?B" and d: "FS \<inter> US = {}"
    and adj: "\<And>b c. b \<in> FS \<Longrightarrow> c \<in> FS \<Longrightarrow> fst b + snd b \<noteq> fst c"
    unfolding well_split_def by blast+
  have inB: "(x, l) \<in> ?B" "(x + l, m) \<in> ?B" using assms(3,4) by simp_all
  have pos: "\<And>c. c \<in> ?B \<Longrightarrow> 0 < snd c" using tiles_bounds[OF t] assms(2) by fastforce
  have su: "\<And>c. c \<in> ?B \<Longrightarrow> fst c = x \<Longrightarrow> c = (x, l)"
    using tiles_start_unique[OF t assms(2) _ inB(1)] by simp
  have lpos: "0 < l" using pos[OF inB(1)] by simp
  have mpos: "0 < m" using pos[OF inB(2)] by simp
  have new_notin: "(x, l + m) \<notin> ?B" using su[of "(x, l + m)"] mpos by auto
  have eq: "insert (x, l + m) (FS - {(x + l, m)}) \<union> (US - {(x, l)})
      = insert (x, l + m) (?B - {(x, l), (x + l, m)})"
    using assms(4,3) d by (rule set_eq_merge')
  have t': "tiles a n F (insert (x, l + m) (FS - {(x + l, m)}) \<union> (US - {(x, l)}))"
    unfolding eq by (rule tiles_merge[OF t assms(2) inB])
  have d': "insert (x, l + m) (FS - {(x + l, m)}) \<inter> (US - {(x, l)}) = {}"
    using d new_notin by (intro set_disj_merge) auto
  have adj': "\<forall>b\<in>insert (x, l + m) (FS - {(x + l, m)}).
      \<forall>c\<in>insert (x, l + m) (FS - {(x + l, m)}). fst b + snd b \<noteq> fst c"
  proof (intro ballI)
    fix b c
    assume b: "b \<in> insert (x, l + m) (FS - {(x + l, m)})"
      and c: "c \<in> insert (x, l + m) (FS - {(x + l, m)})"
    show "fst b + snd b \<noteq> fst c"
    proof (cases "b = (x, l + m)")
      case True
      show ?thesis
      proof (cases "c = (x, l + m)")
        case True with \<open>b = (x, l + m)\<close> lpos show ?thesis by auto
      next
        case False
        with c have "c \<in> FS" by auto
        from adj[OF assms(4) this] True show ?thesis by (simp add: add.assoc)
      qed
    next
      case False
      with b have bF: "b \<in> FS" by auto
      show ?thesis
      proof (cases "c = (x, l + m)")
        case True with assms(5) bF show ?thesis by auto
      next
        case False
        with c have "c \<in> FS" by auto
        from adj[OF bF this] show ?thesis .
      qed
    qed
  qed
  from t' d' adj' show ?thesis unfolding well_split_def by blast
qed

lemma well_split_merge_both:
  assumes "well_split a n F FS US" "0 < F" "(y, m) \<in> FS" "(y + m, l) \<in> US" "(y + m + l, k) \<in> FS"
  shows "well_split a n F (insert (y, m + l + k) (FS - {(y, m), (y + m + l, k)})) (US - {(y + m, l)})"
proof -
  let ?B = "FS \<union> US"
  let ?FS1 = "insert (y, m + l) (FS - {(y, m)})"
  let ?US1 = "US - {(y + m, l)}"
  from assms(1) have t: "tiles a n F ?B" and d: "FS \<inter> US = {}"
    and adj: "\<And>b c. b \<in> FS \<Longrightarrow> c \<in> FS \<Longrightarrow> fst b + snd b \<noteq> fst c"
    unfolding well_split_def by blast+
  have inB: "(y, m) \<in> ?B" "(y + m, l) \<in> ?B" "(y + m + l, k) \<in> ?B" using assms(3,4,5) by simp_all
  have pos: "\<And>c. c \<in> ?B \<Longrightarrow> 0 < snd c" using tiles_bounds[OF t] assms(2) by fastforce
  have lpos: "0 < l" using pos[OF inB(2)] by simp
  have mpos: "0 < m" using pos[OF inB(1)] by simp
  have kpos: "0 < k" using pos[OF inB(3)] by simp
  have su: "\<And>c. c \<in> ?B \<Longrightarrow> fst c = y \<Longrightarrow> c = (y, m)"
    using tiles_start_unique[OF t assms(2) _ inB(1)] by simp
  have ne: "(y + m + l, k) \<noteq> (y, m)" using mpos lpos by simp
  have n1: "(y, m + l) \<notin> ?B" using su[of "(y, m + l)"] lpos by auto
  have n2: "(y, m + l + k) \<notin> ?B" using su[of "(y, m + l + k)"] lpos by auto
  have t1: "tiles a n F (insert (y, m + l) (?B - {(y, m), (y + m, l)}))"
    by (rule tiles_merge[OF t assms(2) inB(1,2)])
  have in1: "(y, m + l) \<in> insert (y, m + l) (?B - {(y, m), (y + m, l)})" by simp
  have in2: "(y + (m + l), k) \<in> insert (y, m + l) (?B - {(y, m), (y + m, l)})"
    using inB(3) mpos lpos by (simp add: add.assoc)
  have t2: "tiles a n F (insert (y, m + l + k)
      (insert (y, m + l) (?B - {(y, m), (y + m, l)}) - {(y, m + l), (y + (m + l), k)}))"
    by (rule tiles_merge[OF t1 assms(2) in1 in2])
  have eq: "insert (y, m + l + k) (FS - {(y, m), (y + m + l, k)}) \<union> (US - {(y + m, l)})
      = insert (y, m + l + k)
         (insert (y, m + l) (?B - {(y, m), (y + m, l)}) - {(y, m + l), (y + (m + l), k)})"
  proof -
    have "\<And>p q r u w FS' US'. q \<in> FS' \<Longrightarrow> r \<in> US' \<Longrightarrow> u \<in> FS' \<Longrightarrow> FS' \<inter> US' = {} \<Longrightarrow>
        w \<notin> FS' \<union> US' \<Longrightarrow>
        insert p (FS' - {q, u}) \<union> (US' - {r}) = insert p (insert w ((FS' \<union> US') - {q, r}) - {w, u})"
      by blast
    from this[OF assms(3,4,5) d n1] show ?thesis by (simp add: add.assoc)
  qed
  have t': "tiles a n F (insert (y, m + l + k) (FS - {(y, m), (y + m + l, k)}) \<union> (US - {(y + m, l)}))"
    unfolding eq by (rule t2)
  have d': "insert (y, m + l + k) (FS - {(y, m), (y + m + l, k)}) \<inter> (US - {(y + m, l)}) = {}"
    using d n2 by blast
  have adj': "\<forall>b\<in>insert (y, m + l + k) (FS - {(y, m), (y + m + l, k)}).
      \<forall>c\<in>insert (y, m + l + k) (FS - {(y, m), (y + m + l, k)}). fst b + snd b \<noteq> fst c"
  proof (intro ballI)
    fix b c
    assume b: "b \<in> insert (y, m + l + k) (FS - {(y, m), (y + m + l, k)})"
      and c: "c \<in> insert (y, m + l + k) (FS - {(y, m), (y + m + l, k)})"
    show "fst b + snd b \<noteq> fst c"
    proof (cases "b = (y, m + l + k)")
      case True
      show ?thesis
      proof (cases "c = (y, m + l + k)")
        case True with \<open>b = (y, m + l + k)\<close> lpos show ?thesis by auto
      next
        case False
        with c have "c \<in> FS" by auto
        from adj[OF assms(5) this] True show ?thesis by (simp add: add.assoc)
      qed
    next
      case False
      with b have bF: "b \<in> FS" by auto
      show ?thesis
      proof (cases "c = (y, m + l + k)")
        case True with adj[OF bF assms(3)] show ?thesis by simp
      next
        case False
        with c have "c \<in> FS" by auto
        from adj[OF bF this] show ?thesis .
      qed
    qed
  qed
  from t' d' adj' show ?thesis unfolding well_split_def by blast
qed

text \<open>With no used block left and no two free blocks adjacent, one free block is the arena.\<close>

lemma well_split_all_free:
  assumes "well_split a n F FS {}" "0 < F" "0 < n"
  shows "FS = {(a, n)}"
proof -
  from assms(1) have t: "tiles a n F FS"
    and adj: "\<And>b c. b \<in> FS \<Longrightarrow> c \<in> FS \<Longrightarrow> fst b + snd b \<noteq> fst c"
    unfolding well_split_def by auto
  have cov: "\<And>i. a \<le> i \<Longrightarrow> i < a + n \<Longrightarrow> \<exists>b\<in>FS. fst b \<le> i \<and> i < fst b + snd b"
    using t unfolding tiles_def by blast
  from cov[of a] assms(3) obtain b where b: "b \<in> FS" "fst b \<le> a" "a < fst b + snd b" by auto
  have bb: "F \<le> snd b" "a \<le> fst b" "fst b + snd b \<le> a + n" using tiles_bounds[OF t b(1)] by auto
  have start: "fst b = a" using b(2) bb(2) by simp
  have "fst b + snd b = a + n"
  proof (rule ccontr)
    assume "fst b + snd b \<noteq> a + n"
    with bb(3) have lt: "fst b + snd b < a + n" by simp
    from cov[of "fst b + snd b"] lt start
    obtain c where c: "c \<in> FS" "fst c \<le> fst b + snd b" "fst b + snd b < fst c + snd c" by auto
    have "c \<noteq> b" using c(3) by auto
    from tiles_disjoint[OF t b(1) c(1) this[symmetric]] c(2,3) assms(2) bb(1)
    have "fst c = fst b + snd b" by auto
    with adj[OF b(1) c(1)] show False by simp
  qed
  with start have beq: "b = (a, n)" by (cases b) simp
  have "c = b" if "c \<in> FS" for c
  proof (rule ccontr)
    assume "c \<noteq> b"
    from tiles_disjoint[OF t that b(1) this] tiles_bounds[OF t that] beq assms(2)
    show False by auto
  qed
  with b(1) beq show ?thesis by auto
qed

lemma idle_inv_unfold:
  "idle_inv L base len s P \<longleftrightarrow>
     \<not> gmutex s \<and> distinct (free_list s) \<and> finite P \<and>
     well_split (unat base) (unat len) (unat (sizeof_free_block L))
       (free_span L s ` set (free_list s)) (used_span L s ` P)"
  by (simp add: idle_inv_def heap_inv_def)

section \<open>The invariant under allocation\<close>

lemma unat_add64: "unat a + unat b < 2^64 \<Longrightarrow> unat (a + b) = unat a + unat (b :: 64 word)"
  using unat_add_lem [of a b] by simp

lemma unat_sub64: "unat b \<le> unat a \<Longrightarrow> unat (a - b) = unat a - unat (b :: 64 word)"
  by (simp add: unat_sub word_le_nat_alt)

lemma free_span_inj: "fst (free_span L s e) = fst (free_span L s' e') \<Longrightarrow> e = e'"
  by (simp add: free_span_def list_entry_def word_unat_eq_iff [symmetric])

lemma used_span_inj: "fst (used_span L s p) = fst (used_span L s' q) \<Longrightarrow> p = q"
  by (simp add: used_span_def word_unat_eq_iff [symmetric])

lemma mem_alloc_loop_consume:
  assumes "\<not> mem s (list_entry L e) < sz"
    and "mem s (list_entry L e) - sz <s sizeof_free_block L"
    and "sz = len + sizeof_used_block L"
  shows "mem_alloc_loop L len sz (e # post) s =
    (list_entry L e + sizeof_used_block L,
     pthread_mutex_unlock (s\<lparr>free_list := remove1 e (free_list s),
        mem := (mem s)(list_entry L e := mem s (list_entry L e) - sizeof_used_block L)\<rparr>))"
  using assms
  by (auto simp: Let_def list_remove_def pthread_mutex_unlock_def intro!: state.equality)

lemma mem_alloc_loop_split:
  assumes "\<not> mem s (list_entry L e) < sz"
    and "\<not> mem s (list_entry L e) - sz <s sizeof_free_block L"
  shows "mem_alloc_loop L len sz (e # post) s =
    (list_entry L e + (mem s (list_entry L e) - sz) + sizeof_used_block L,
     pthread_mutex_unlock (s\<lparr>mem := (mem s)(list_entry L e := mem s (list_entry L e) - sz,
        list_entry L e + (mem s (list_entry L e) - sz) := len)\<rparr>))"
  using assms
  by (auto simp: Let_def pthread_mutex_unlock_def intro!: state.equality)

lemma idle_inv_init:
  assumes "valid_layout L" "valid_arena L base len" "\<not> gmutex s"
  shows "idle_inv L base len (mem_init L base len s) {}"
proof -
  have "well_split (unat base) (unat len) (unat (sizeof_free_block L)) {(unat base, unat len)} {}"
    using assms(1,2) unfolding well_split_def tiles_def valid_arena_def valid_layout_def
    by (auto simp: word_le_nat_alt word_less_nat_alt)
  with assms(3) show ?thesis
    by (simp add: idle_inv_unfold mem_init_def Let_def list_push_back_def elem_of_def free_span_def
        list_entry_def)
qed

lemma free_span_inj': "free_span L s e = free_span L s' e' \<Longrightarrow> e = e'"
  using free_span_inj [of L s e s' e'] by simp

lemma used_span_inj': "used_span L s p = used_span L s' q \<Longrightarrow> p = q"
  using used_span_inj [of L s p s' q] by simp

lemma free_span_image_remove: "free_span L s ` (A - {e}) = free_span L s ` A - {free_span L s e}"
  by (auto dest: free_span_inj')

lemma used_span_image_remove: "used_span L s ` (A - {p}) = used_span L s ` A - {used_span L s p}"
  by (auto dest: used_span_inj')

lemma free_span_cong:
  "mem s' (list_entry L e) = mem s (list_entry L e) \<Longrightarrow> free_span L s' e = free_span L s e"
  by (simp add: free_span_def)

lemma used_span_cong:
  "mem s' (p - sizeof_used_block L) = mem s (p - sizeof_used_block L) \<Longrightarrow>
   used_span L s' p = used_span L s p"
  by (simp add: used_span_def)

lemma tiles_start_outside:
  assumes "tiles a n F B" "0 < F" "b \<in> B" "c \<in> B" "c \<noteq> b"
  shows "fst c < fst b \<or> fst b + snd b \<le> fst c"
  using tiles_disjoint[OF assms(1,3,4)] tiles_bounds[OF assms(1,4)] assms(2,5) by auto

lemma clamp_size:
  assumes "valid_layout L" "request_ok L n"
  shows "unat (clamp_length L n + sizeof_used_block L)
           = unat (clamp_length L n) + unat (sizeof_used_block L)"
    and "unat (sizeof_free_block L) \<le> unat (clamp_length L n + sizeof_used_block L)"
proof -
  let ?U = "sizeof_used_block L" and ?F = "sizeof_free_block L"
  from assms(1) have UF: "unat ?U \<le> unat ?F"
    by (simp add: valid_layout_def word_le_nat_alt)
  have m: "unat (min_alloc_size L) = unat ?F - unat ?U"
    using UF by (simp add: min_alloc_size_def unat_sub64)
  have F: "unat ?F < 2^64" using unsigned_less [of ?F] by simp
  have *: "unat (clamp_length L n) + unat ?U < 2^64 \<and>
      unat ?F \<le> unat (clamp_length L n) + unat ?U"
  proof (cases "n < min_alloc_size L")
    case True
    then show ?thesis using m UF F by (simp add: clamp_length_def)
  next
    case False
    then have "unat ?F - unat ?U \<le> unat n" using m by (simp add: word_less_nat_alt)
    with False assms(2) show ?thesis by (simp add: clamp_length_def request_ok_def)
  qed
  then show "unat (clamp_length L n + ?U) = unat (clamp_length L n) + unat ?U"
    by (simp add: unat_add64)
  with * show "unat ?F \<le> unat (clamp_length L n + ?U)" by simp
qed

lemma sle_imp_le:
  fixes a b :: "64 word"
  assumes "\<not> a <s b" "b < 2^63"
  shows "unat b \<le> unat a"
proof (cases "a < 2^63")
  case True
  with assms show ?thesis by (simp add: sless_small word_less_nat_alt)
next
  case False
  then have "2^63 \<le> a" by simp
  with assms(2) have "b \<le> a" by simp
  then show ?thesis by (simp add: word_le_nat_alt)
qed

lemma idle_inv_alloc:
  assumes inv: "idle_inv L base len s P" and vl: "valid_layout L"
    and va: "valid_arena L base len" and rq: "request_ok L n"
    and res: "mem_alloc L n s = Some (p, s')"
  shows "(p = 0 \<and> s' = s) \<or> (p \<noteq> 0 \<and> p \<notin> P \<and> idle_inv L base len s' (insert p P))"
proof -
  let ?U = "sizeof_used_block L" and ?F = "sizeof_free_block L"
  let ?len = "clamp_length L n"
  let ?sz = "?len + ?U"
  let ?a = "unat base" and ?n = "unat len"
  let ?FS = "free_span L s ` set (free_list s)" and ?US = "used_span L s ` P"
  let ?s1 = "s\<lparr>gmutex := True\<rparr>"
  from inv have unl: "\<not> gmutex s" and dist: "distinct (free_list s)" and fin: "finite P"
    and g: "well_split ?a ?n (unat ?F) ?FS ?US" by (simp_all add: idle_inv_unfold)
  from g have t: "tiles ?a ?n (unat ?F) (?FS \<union> ?US)" and dj: "?FS \<inter> ?US = {}"
    by (simp_all add: well_split_def)
  from vl have U0: "0 < unat ?U" and UF: "unat ?U \<le> unat ?F" and F63: "?F < 2^63"
    by (simp_all add: valid_layout_def word_le_nat_alt word_less_nat_alt)
  from U0 UF have F0: "0 < unat ?F" by simp
  from va have top: "?a + ?n < 2^64" by (simp add: valid_arena_def)
  note szn = clamp_size(1)[OF vl rq] and szF = clamp_size(2)[OF vl rq]
  from res unl have loop: "mem_alloc_loop L ?len ?sz (free_list s) ?s1 = (p, s')"
    by (simp add: mem_alloc_def pthread_mutex_lock_def Let_def)
  show ?thesis
  proof (cases "\<forall>e\<in>set (free_list s). mem s (list_entry L e) < ?sz")
    case True
    then have "mem_alloc_loop L ?len ?sz (free_list s) ?s1 = (0, pthread_mutex_unlock ?s1)"
      by (simp add: mem_alloc_loop_none)
    with loop unl show ?thesis by (simp add: unlock_lock)
  next
    case False
    then have "\<exists>e\<in>set (free_list s). \<not> mem s (list_entry L e) < ?sz" by simp
    from split_list_first_prop[OF this]
    obtain pre e post where sp: "free_list s = pre @ e # post"
      and fit: "\<not> mem s (list_entry L e) < ?sz"
      and pre: "\<forall>e'\<in>set pre. \<not> \<not> mem s (list_entry L e') < ?sz" by blast
    let ?fb = "list_entry L e"
    let ?fbl = "mem s ?fb"
    let ?lo = "?fbl - ?sz"
    let ?x = "unat ?fb" and ?l = "unat ?fbl" and ?k = "unat ?sz"
    have eIn: "e \<in> set (free_list s)" using sp by simp
    have bF: "(?x, ?l) \<in> ?FS" using eIn by (force simp: free_span_def)
    then have bB: "(?x, ?l) \<in> ?FS \<union> ?US" by simp
    from tiles_bounds[OF t bB] have bnd: "unat ?F \<le> ?l" "?a \<le> ?x" "?x + ?l \<le> ?a + ?n"
      by simp_all
    have kl: "?k \<le> ?l" using fit by (simp add: word_less_nat_alt)
    have lo: "unat ?lo = ?l - ?k" using kl by (simp add: unat_sub64)
    have loop2: "mem_alloc_loop L ?len ?sz (e # post) ?s1 = (p, s')"
      using loop pre by (simp add: sp mem_alloc_loop_skip)
    have out_free: "unat (list_entry L e') < ?x \<or> ?x + ?l \<le> unat (list_entry L e')"
      if "e' \<in> set (free_list s)" "e' \<noteq> e" for e'
    proof -
      have "free_span L s e' \<in> ?FS \<union> ?US" using that(1) by simp
      moreover have "free_span L s e' \<noteq> free_span L s e"
        using that(2) free_span_inj'[of L s e' s e] by blast
      then have "free_span L s e' \<noteq> (?x, ?l)" by (simp add: free_span_def)
      ultimately show ?thesis
        using tiles_start_outside[OF t F0 bB, of "free_span L s e'"] by (simp add: free_span_def)
    qed
    have out_used: "unat (q - ?U) < ?x \<or> ?x + ?l \<le> unat (q - ?U)" if "q \<in> P" for q
    proof -
      have "used_span L s q \<in> ?US" using that by simp
      moreover from this have "used_span L s q \<noteq> (?x, ?l)" using dj bF by auto
      ultimately show ?thesis
        using tiles_start_outside[OF t F0 bB, of "used_span L s q"] by (simp add: used_span_def)
    qed
    show ?thesis
    proof (cases "?lo <s ?F")
      case True
      from mem_alloc_loop_consume[OF _ _ refl, of ?s1 L e ?len post] fit True loop2
      have p: "p = ?fb + ?U"
        and s': "s' = pthread_mutex_unlock (?s1\<lparr>free_list := remove1 e (free_list ?s1),
          mem := (mem ?s1)(?fb := ?fbl - ?U)\<rparr>)"
        by (simp_all del: mem_alloc_loop.simps)
      have g': "\<not> gmutex s'" and fl': "free_list s' = remove1 e (free_list s)"
        and m': "mem s' = (mem s)(?fb := ?fbl - ?U)"
        by (simp_all add: s' pthread_mutex_unlock_def)
      have Ul: "unat ?U \<le> ?l" using UF bnd(1) by simp
      have xU: "?x + unat ?U < 2^64" using Ul bnd(3) top by simp
      then have up: "unat p = ?x + unat ?U" unfolding p by (rule unat_add64)
      have pU: "p - ?U = ?fb" by (simp add: p)
      have p0: "p \<noteq> 0" using up U0 by (metis add_is_0 less_numeral_extra(3) unat_0_iff)
      have "\<not> (unat (p - ?U) < ?x \<or> ?x + ?l \<le> unat (p - ?U))"
        unfolding pU using bnd(1) F0 by linarith
      then have pP: "p \<notin> P" using out_used[of p] by blast
      have "free_span L s' ` set (free_list s') = free_span L s' ` (set (free_list s) - {e})"
        using dist by (simp add: fl')
      also have "\<dots> = free_span L s ` (set (free_list s) - {e})"
      proof (rule image_cong[OF refl])
        fix e' assume "e' \<in> set (free_list s) - {e}"
        then have "unat (list_entry L e') \<noteq> ?x" using out_free[of e'] bnd(1) F0 by force
        then have "list_entry L e' \<noteq> ?fb" by metis
        then show "free_span L s' e' = free_span L s e'" by (intro free_span_cong) (simp add: m')
      qed
      also have "\<dots> = ?FS - {(?x, ?l)}" by (simp add: free_span_image_remove) (simp add: free_span_def)
      finally have FS': "free_span L s' ` set (free_list s') = ?FS - {(?x, ?l)}" .
      have "used_span L s' p = (?x, ?l)"
        using Ul by (simp add: used_span_def pU m' unat_sub64)
      moreover have "used_span L s' ` P = ?US"
      proof (rule image_cong[OF refl])
        fix q assume "q \<in> P"
        then have "unat (q - ?U) \<noteq> ?x" using out_used[of q] bnd(1) F0 by force
        then have "q - ?U \<noteq> ?fb" by metis
        then show "used_span L s' q = used_span L s q" by (intro used_span_cong) (simp add: m')
      qed
      ultimately have US': "used_span L s' ` insert p P = insert (?x, ?l) ?US" by simp
      have "well_split ?a ?n (unat ?F) (free_span L s' ` set (free_list s')) (used_span L s' ` insert p P)"
        unfolding FS' US' by (rule well_split_consume[OF g bF])
      with g' dist fin have "idle_inv L base len s' (insert p P)"
        by (simp add: idle_inv_unfold fl')
      with p0 pP show ?thesis by simp
    next
      case False
      let ?ub = "?fb + ?lo"
      from mem_alloc_loop_split[of ?s1 L e ?sz ?len post] fit False loop2
      have p: "p = ?ub + ?U"
        and s': "s' = pthread_mutex_unlock (?s1\<lparr>mem := (mem ?s1)(?fb := ?lo, ?ub := ?len)\<rparr>)"
        by (simp_all del: mem_alloc_loop.simps)
      have g': "\<not> gmutex s'" and fl': "free_list s' = free_list s"
        and m': "mem s' = (mem s)(?fb := ?lo, ?ub := ?len)"
        by (simp_all add: s' pthread_mutex_unlock_def)
      have Flo: "unat ?F \<le> ?l - ?k" using sle_imp_le[OF False F63] lo by simp
      have k0: "0 < ?k" using szF F0 by simp
      have ubn: "unat ?ub = ?x + (?l - ?k)" using lo bnd(3) top by (simp add: unat_add64)
      have ub_in: "?x < unat ?ub" "unat ?ub < ?x + ?l" using ubn Flo F0 k0 kl by simp_all
      have ub_ne: "?ub \<noteq> ?fb" using ub_in(1) by auto
      have kU: "unat ?U \<le> ?k" using szn by simp
      have "unat ?ub + unat ?U < 2^64" using ubn kU kl bnd(3) top by simp
      then have up: "unat p = unat ?ub + unat ?U" unfolding p by (rule unat_add64)
      have pU: "p - ?U = ?ub" by (simp add: p)
      have p0: "p \<noteq> 0" using up U0 by (metis add_is_0 less_numeral_extra(3) unat_0_iff)
      have "\<not> (unat (p - ?U) < ?x \<or> ?x + ?l \<le> unat (p - ?U))"
        unfolding pU using ub_in by linarith
      then have pP: "p \<notin> P" using out_used[of p] by blast
      have "free_span L s' e = (?x, ?l - ?k)" using ub_ne lo by (simp add: free_span_def m')
      moreover have "free_span L s' ` (set (free_list s) - {e}) = free_span L s ` (set (free_list s) - {e})"
      proof (rule image_cong[OF refl])
        fix e' assume "e' \<in> set (free_list s) - {e}"
        then have "unat (list_entry L e') \<noteq> ?x \<and> unat (list_entry L e') \<noteq> unat ?ub"
          using out_free[of e'] ub_in by force
        then have "list_entry L e' \<noteq> ?fb \<and> list_entry L e' \<noteq> ?ub" by metis
        then show "free_span L s' e' = free_span L s e'" by (intro free_span_cong) (simp add: m')
      qed
      moreover have "set (free_list s) = insert e (set (free_list s) - {e})" using eIn by auto
      ultimately have "free_span L s' ` set (free_list s)
          = insert (?x, ?l - ?k) (free_span L s ` (set (free_list s) - {e}))"
        by (metis image_insert)
      then have FS': "free_span L s' ` set (free_list s') = insert (?x, ?l - ?k) (?FS - {(?x, ?l)})"
        by (simp add: fl' free_span_image_remove) (simp add: free_span_def)
      have "used_span L s' p = (?x + (?l - ?k), ?k)"
        by (simp add: used_span_def pU m' ubn szn)
      moreover have "used_span L s' ` P = ?US"
      proof (rule image_cong[OF refl])
        fix q assume "q \<in> P"
        then have "unat (q - ?U) \<noteq> ?x \<and> unat (q - ?U) \<noteq> unat ?ub"
          using out_used[of q] ub_in by linarith
        then have "q - ?U \<noteq> ?fb \<and> q - ?U \<noteq> ?ub" by metis
        then show "used_span L s' q = used_span L s q" by (intro used_span_cong) (simp add: m')
      qed
      ultimately have US': "used_span L s' ` insert p P = insert (?x + (?l - ?k), ?k) ?US" by simp
      have "?k + unat ?F \<le> ?l" using Flo kl by simp
      from well_split_split[OF g F0 bF szF this]
      have "well_split ?a ?n (unat ?F) (free_span L s' ` set (free_list s')) (used_span L s' ` insert p P)"
        unfolding FS' US' .
      with g' dist fin have "idle_inv L base len s' (insert p P)"
        by (simp add: idle_inv_unfold fl')
      with p0 pP show ?thesis by simp
    qed
  qed
qed

section \<open>The invariant under release\<close>

lemma mem_free_scan_gmutex:
  "mem_free_scan L (s\<lparr>gmutex := g\<rparr>) ptr ub es (b, a, r) = mem_free_scan L s ptr ub es (b, a, r)"
  by (induction es arbitrary: b a r) (simp_all add: Let_def split_def)

lemma unlock_after_update: "\<not> gmutex s \<Longrightarrow> pthread_mutex_unlock (s\<lparr>gmutex := True, mem := m\<rparr>) = s\<lparr>mem := m\<rparr>"
  "\<not> gmutex s \<Longrightarrow> pthread_mutex_unlock (s\<lparr>gmutex := True, mem := m, free_list := fl\<rparr>)
     = s\<lparr>mem := m, free_list := fl\<rparr>"
  "\<not> gmutex s \<Longrightarrow> pthread_mutex_unlock (s\<lparr>gmutex := True, mem := m, mem := m', free_list := fl\<rparr>)
     = s\<lparr>mem := m', free_list := fl\<rparr>"
  by (cases s; simp add: pthread_mutex_unlock_def)+

lemma mem_free_scan_step:
  "\<exists>a' r'. mem_free_scan L s ptr ub (e # es) (b, a, r) =
     mem_free_scan L s ptr ub es
       (if ub = list_entry L e + mem s (list_entry L e) then list_entry L e else b, a', r')
     \<and> (a', r') = (if list_entry L e = ptr + mem s ub then (list_entry L e, e) else (a, r))"
  by (simp add: Let_def split_def)

lemma mem_free_scan_before_none:
  "\<forall>e\<in>set es. ub \<noteq> list_entry L e + mem s (list_entry L e) \<Longrightarrow>
   fst (mem_free_scan L s ptr ub es (b, a, r)) = b"
proof (induction es arbitrary: a r)
  case Nil
  then show ?case by simp
next
  case (Cons e es)
  from mem_free_scan_step[of L s ptr ub e es b a r] Cons.prems
  obtain a' r' where "mem_free_scan L s ptr ub (e # es) (b, a, r) =
     mem_free_scan L s ptr ub es (b, a', r')" by auto
  moreover have "fst (mem_free_scan L s ptr ub es (b, a', r')) = b"
    using Cons.prems by (intro Cons.IH) simp
  ultimately show ?case by (simp only:)
qed

lemma mem_free_scan_before_found:
  assumes "e \<in> set es" "ub = list_entry L e + mem s (list_entry L e)"
    and "\<forall>e'\<in>set es. ub = list_entry L e' + mem s (list_entry L e') \<longrightarrow> e' = e"
  shows "fst (mem_free_scan L s ptr ub es (b, a, r)) = list_entry L e"
  using assms
proof (induction es arbitrary: b a r)
  case Nil
  then show ?case by simp
next
  case (Cons e0 es)
  from mem_free_scan_step[of L s ptr ub e0 es b a r]
  obtain b' a' r' where st: "mem_free_scan L s ptr ub (e0 # es) (b, a, r) =
     mem_free_scan L s ptr ub es (b', a', r')"
    and b': "b' = (if ub = list_entry L e0 + mem s (list_entry L e0) then list_entry L e0 else b)"
    by blast
  show ?case
  proof (cases "e \<in> set es")
    case True
    have "\<forall>e'\<in>set es. ub = list_entry L e' + mem s (list_entry L e') \<longrightarrow> e' = e"
      using Cons.prems(3) by (meson list.set_intros(2))
    from Cons.IH[OF True Cons.prems(2) this]
    have "fst (mem_free_scan L s ptr ub es (b', a', r')) = list_entry L e" .
    with st show ?thesis by (simp only:)
  next
    case False
    with Cons.prems(1) have e0: "e0 = e" by simp
    with b' Cons.prems(2) have "b' = list_entry L e" by simp
    moreover from False Cons.prems(3)
    have "\<forall>e'\<in>set es. ub \<noteq> list_entry L e' + mem s (list_entry L e')" by auto
    from mem_free_scan_before_none[OF this]
    have "fst (mem_free_scan L s ptr ub es (b', a', r')) = b'" .
    ultimately show ?thesis using st by (simp only:)
  qed
qed

lemma mem_free_scan_after_none:
  "\<forall>e\<in>set es. list_entry L e \<noteq> ptr + mem s ub \<Longrightarrow>
   snd (mem_free_scan L s ptr ub es (b, a, r)) = (a, r)"
proof (induction es arbitrary: b)
  case Nil
  then show ?case by simp
next
  case (Cons e es)
  from mem_free_scan_step[of L s ptr ub e es b a r] Cons.prems
  obtain b' where "mem_free_scan L s ptr ub (e # es) (b, a, r) =
     mem_free_scan L s ptr ub es (b', a, r)" by auto
  moreover have "snd (mem_free_scan L s ptr ub es (b', a, r)) = (a, r)"
    using Cons.prems by (intro Cons.IH) simp
  ultimately show ?case by (simp only:)
qed

lemma mem_free_scan_after_found:
  assumes "e \<in> set es" "list_entry L e = ptr + mem s ub"
    and "\<forall>e'\<in>set es. list_entry L e' = ptr + mem s ub \<longrightarrow> e' = e"
  shows "snd (mem_free_scan L s ptr ub es (b, a, r)) = (list_entry L e, e)"
  using assms
proof (induction es arbitrary: b a r)
  case Nil
  then show ?case by simp
next
  case (Cons e0 es)
  from mem_free_scan_step[of L s ptr ub e0 es b a r]
  obtain b' a' r' where st: "mem_free_scan L s ptr ub (e0 # es) (b, a, r) =
     mem_free_scan L s ptr ub es (b', a', r')"
    and ar: "(a', r') = (if list_entry L e0 = ptr + mem s ub then (list_entry L e0, e0) else (a, r))"
    by blast
  show ?case
  proof (cases "e \<in> set es")
    case True
    have "\<forall>e'\<in>set es. list_entry L e' = ptr + mem s ub \<longrightarrow> e' = e"
      using Cons.prems(3) by (meson list.set_intros(2))
    from Cons.IH[OF True Cons.prems(2) this]
    have "snd (mem_free_scan L s ptr ub es (b', a', r')) = (list_entry L e, e)" .
    with st show ?thesis by (simp only:)
  next
    case False
    with Cons.prems(1) have e0: "e0 = e" by simp
    have "(a', r') = (list_entry L e, e)" unfolding ar e0 using Cons.prems(2) by (rule if_P)
    moreover from False Cons.prems(3)
    have "\<forall>e'\<in>set es. list_entry L e' \<noteq> ptr + mem s ub" by (metis list.set_intros(2))
    from mem_free_scan_after_none[OF this]
    have "snd (mem_free_scan L s ptr ub es (b', a', r')) = (a', r')" .
    ultimately show ?thesis using st by (simp only:)
  qed
qed

lemma mem_free_unfold:
  assumes "\<not> gmutex s" "ptr \<noteq> 0"
    and "mem_free_scan L s ptr (ptr - sizeof_used_block L) (free_list s) (0, 0, 0) = (bb, ba, er)"
  shows "mem_free L ptr s = Some
    (let ub = ptr - sizeof_used_block L; av = sizeof_used_block L + mem s ub in
     if bb = 0 \<and> ba = 0 then
       s\<lparr>mem := (mem s)(ub := av),
         free_list := list_insert_ordered (free_list s) (elem_of L ub) compare\<rparr>
     else if bb \<noteq> 0 \<and> ba = 0 then
       s\<lparr>mem := (mem s)(bb := mem s bb + av)\<rparr>
     else if bb = 0 \<and> ba \<noteq> 0 then
       s\<lparr>mem := (mem s)(ub := av + mem s ba),
         free_list := remove1 er (list_insert_ordered (free_list s) (elem_of L ub) compare)\<rparr>
     else
       s\<lparr>mem := (mem s)(bb := mem s bb + av + (if ba = bb then mem s bb + av else mem s ba)),
         free_list := remove1 er (free_list s)\<rparr>)"
proof -
  let ?s1 = "s\<lparr>gmutex := True\<rparr>"
  have sc: "mem_free_scan L ?s1 ptr (ptr - sizeof_used_block L) (free_list s) (0, 0, 0)
      = (bb, ba, er)"
    using assms(3) by (simp add: mem_free_scan_gmutex)
  have lk: "pthread_mutex_lock s = Some ?s1" using assms(1) by (simp add: pthread_mutex_lock_def)
  have pr: "mem ?s1 = mem s" "free_list ?s1 = free_list s" by simp_all
  show ?thesis
  proof (cases "bb = 0")
    case b0: True
    show ?thesis
    proof (cases "ba = 0")
      case True
      with b0 show ?thesis
        unfolding mem_free_def lk Let_def option.case pr sc prod.case
        using assms(1,2) by (simp add: unlock_after_update)
    next
      case False
      with b0 show ?thesis
        unfolding mem_free_def lk Let_def option.case pr sc prod.case
        using assms(1,2) by (simp add: unlock_after_update list_remove_def)
    qed
  next
    case b1: False
    show ?thesis
    proof (cases "ba = 0")
      case True
      with b1 show ?thesis
        unfolding mem_free_def lk Let_def option.case pr sc prod.case
        using assms(1,2) by (simp add: unlock_after_update)
    next
      case False
      with b1 show ?thesis
        unfolding mem_free_def lk Let_def option.case pr sc prod.case
        using assms(1,2) by (simp add: unlock_after_update list_remove_def)
    qed
  qed
qed

lemma well_split_free_used_start:
  assumes "well_split a n F FS US" "0 < F" "b \<in> FS" "c \<in> US"
  shows "fst b \<noteq> fst c"
proof
  assume eq: "fst b = fst c"
  from assms(1) have t: "tiles a n F (FS \<union> US)" and d: "FS \<inter> US = {}"
    by (simp_all add: well_split_def)
  from tiles_start_unique[OF t assms(2) _ _ eq] assms(3,4) have "b = c" by simp
  with d assms(3,4) show False by auto
qed

lemma diff_two: "A - {a} - {b} = A - {b, a}"
  by blast

lemma idle_inv_free:
  assumes inv: "idle_inv L base len s P" and vl: "valid_layout L"
    and va: "valid_arena L base len" and pP: "p \<in> P"
  shows "\<exists>s'. mem_free L p s = Some s' \<and> idle_inv L base len s' (P - {p})"
proof -
  let ?U = "sizeof_used_block L" and ?F = "sizeof_free_block L"
  let ?a = "unat base" and ?n = "unat len"
  let ?es = "free_list s"
  let ?FS = "free_span L s ` set ?es" and ?US = "used_span L s ` P"
  from inv have unl: "\<not> gmutex s" and dist: "distinct ?es" and fin: "finite P"
    and g: "well_split ?a ?n (unat ?F) ?FS ?US" by (simp_all add: idle_inv_unfold)
  from g have t: "tiles ?a ?n (unat ?F) (?FS \<union> ?US)" and dj: "?FS \<inter> ?US = {}"
    by (simp_all add: well_split_def)
  from vl have U0: "0 < unat ?U" and UF: "unat ?U \<le> unat ?F"
    by (simp_all add: valid_layout_def word_le_nat_alt word_less_nat_alt)
  from U0 UF have F0: "0 < unat ?F" by simp
  from va have top: "?a + ?n < 2^64" and a0: "0 < ?a"
    by (simp_all add: valid_arena_def unat_gt_0)
  define ub where "ub = p - ?U"
  define ul where "ul = mem s ub"
  define av where "av = ?U + ul"
  define x where "x = unat ub"
  define l where "l = unat ?U + unat ul"
  have uU: "used_span L s p = (x, l)" by (simp add: used_span_def ub_def ul_def x_def l_def)
  have bU: "(x, l) \<in> ?US" using pP uU by (metis imageI)
  then have bB: "(x, l) \<in> ?FS \<union> ?US" by simp
  from tiles_bounds[OF t bB] have bnd: "unat ?F \<le> l" "?a \<le> x" "x + l \<le> ?a + ?n"
    by simp_all
  have l64: "unat ?U + unat ul < 2^64" using bnd(3) top by (simp add: l_def)
  have avn: "unat av = l" unfolding av_def l_def using l64 by (rule unat_add64)
  have p_eq: "p = ub + ?U" by (simp add: ub_def)
  have "unat ub + unat ?U < 2^64" using bnd(3) top by (simp add: l_def x_def)
  then have pn: "unat p = x + unat ?U" unfolding p_eq x_def by (rule unat_add64)
  have p0: "p \<noteq> 0" using pn U0 by (metis add_is_0 less_numeral_extra(3) unat_0_iff)
  have "unat ub + unat av < 2^64" using bnd(3) top avn by (simp add: x_def)
  then have "unat (ub + av) = x + l" unfolding x_def avn[symmetric] by (rule unat_add64)
  moreover have "p + ul = ub + av" by (simp add: p_eq av_def)
  ultimately have endn: "unat (p + ul) = x + l" by simp
  define fbs where "fbs e = list_entry L e" for e
  define y where "y e = unat (fbs e)" for e
  define m where "m e = unat (mem s (fbs e))" for e
  have fb: "free_span L s e = (y e, m e)" for e by (simp add: free_span_def y_def m_def fbs_def)
  have fF: "(y e, m e) \<in> ?FS" if "e \<in> set ?es" for e using that fb by (metis imageI)
  have fbnd: "unat ?F \<le> m e \<and> ?a \<le> y e \<and> y e + m e \<le> ?a + ?n" if "e \<in> set ?es" for e
    using tiles_bounds[OF t, of "(y e, m e)"] fF[OF that] by simp
  have fend: "unat (fbs e + mem s (fbs e)) = y e + m e" if "e \<in> set ?es" for e
    unfolding y_def m_def using fbnd[OF that] top
    by (intro unat_add64) (simp add: y_def m_def)
  have fb0: "fbs e \<noteq> 0" if "e \<in> set ?es" for e
    using fbnd[OF that] a0 by (metis y_def not_less unat_0_iff)
  have yx: "y e \<noteq> x" if "e \<in> set ?es" for e
    using well_split_free_used_start[OF g F0 fF[OF that] bU] by simp
  have fb_ub: "fbs e \<noteq> ub" if "e \<in> set ?es" for e
    using yx[OF that] by (metis x_def y_def)
  have y_inj: "e = e'" if "y e = y e'" for e e'
    using that free_span_inj[of L s e s e'] by (simp add: fb)
  have used_free: "q - ?U \<noteq> fbs e" if "q \<in> P" "e \<in> set ?es" for q e
  proof -
    have "used_span L s q \<in> ?US" using that(1) by simp
    from well_split_free_used_start[OF g F0 fF[OF that(2)] this]
    show ?thesis by (auto simp: used_span_def y_def)
  qed
  have used_ub: "q - ?U \<noteq> ub" if "q \<noteq> p" for q using that by (simp add: ub_def)
  have US_eq: "used_span L s' ` (P - {p}) = ?US - {(x, l)}"
    if "\<And>q. q \<in> P \<Longrightarrow> q \<noteq> p \<Longrightarrow> mem s' (q - ?U) = mem s (q - ?U)" for s'
  proof -
    have "used_span L s' ` (P - {p}) = used_span L s ` (P - {p})"
      by (rule image_cong[OF refl], rule used_span_cong) (simp add: that)
    then show ?thesis by (simp add: used_span_image_remove uU)
  qed
  have FS_keep: "free_span L s' ` A = free_span L s ` A"
    if "\<And>e. e \<in> A \<Longrightarrow> mem s' (fbs e) = mem s (fbs e)" for s' A
    by (rule image_cong[OF refl], rule free_span_cong) (simp add: that[unfolded fbs_def])
  define isb where "isb e \<longleftrightarrow> ub = fbs e + mem s (fbs e)" for e
  define isa where "isa e \<longleftrightarrow> fbs e = p + ul" for e
  have isb_iff: "isb e \<longleftrightarrow> y e + m e = x" if "e \<in> set ?es" for e
    unfolding isb_def using fend[OF that] by (metis x_def word_unat_eq_iff)
  have isa_iff: "isa e \<longleftrightarrow> y e = x + l" if "e \<in> set ?es" for e
    unfolding isa_def using endn by (metis y_def word_unat_eq_iff)
  have isb_uniq: "e = e'" if "e \<in> set ?es" "e' \<in> set ?es" "isb e" "isb e'" for e e'
  proof (rule ccontr)
    assume "e \<noteq> e'"
    then have "(y e, m e) \<noteq> (y e', m e')" using y_inj by auto
    from tiles_disjoint[OF t _ _ this] fF[OF that(1)] fF[OF that(2)]
    have "y e + m e \<le> y e' \<or> y e' + m e' \<le> y e" by simp
    moreover have "y e + m e = x" "y e' + m e' = x"
      using that isb_iff by simp_all
    moreover have "0 < m e" "0 < m e'" using fbnd[OF that(1)] fbnd[OF that(2)] F0 by simp_all
    ultimately show False by linarith
  qed
  have isa_uniq: "e = e'" if "e \<in> set ?es" "e' \<in> set ?es" "isa e" "isa e'" for e e'
    using that isa_iff y_inj by simp
  obtain bb ba er where sc: "mem_free_scan L s p ub ?es (0, 0, 0) = (bb, ba, er)"
    by (metis prod_cases3)
  have B: "(bb = 0 \<and> (\<forall>e\<in>set ?es. \<not> isb e)) \<or>
      (\<exists>eb\<in>set ?es. isb eb \<and> bb = fbs eb \<and> bb \<noteq> 0)"
  proof (cases "\<exists>e\<in>set ?es. isb e")
    case False
    then have "\<forall>e\<in>set ?es. ub \<noteq> list_entry L e + mem s (list_entry L e)"
      by (simp add: isb_def fbs_def)
    from mem_free_scan_before_none[OF this, of p 0 0 0] sc False show ?thesis by simp
  next
    case True
    then obtain eb where eb: "eb \<in> set ?es" "isb eb" by blast
    have "\<forall>e'\<in>set ?es. ub = list_entry L e' + mem s (list_entry L e') \<longrightarrow> e' = eb"
      using isb_uniq[OF _ eb(1) _ eb(2)] by (simp add: isb_def fbs_def)
    from mem_free_scan_before_found[OF eb(1) eb(2)[unfolded isb_def fbs_def] this, of p 0 0 0] sc
    have "bb = fbs eb" by (simp add: fbs_def)
    with eb fb0[OF eb(1)] show ?thesis by auto
  qed
  have A: "(ba = 0 \<and> (\<forall>e\<in>set ?es. \<not> isa e)) \<or>
      (\<exists>ea\<in>set ?es. isa ea \<and> ba = fbs ea \<and> er = ea \<and> ba \<noteq> 0)"
  proof (cases "\<exists>e\<in>set ?es. isa e")
    case False
    then have "\<forall>e\<in>set ?es. list_entry L e \<noteq> p + mem s ub"
      by (simp add: isa_def fbs_def ul_def)
    from mem_free_scan_after_none[OF this, of 0 0 0] sc False show ?thesis by simp
  next
    case True
    then obtain ea where ea: "ea \<in> set ?es" "isa ea" by blast
    have "\<forall>e'\<in>set ?es. list_entry L e' = p + mem s ub \<longrightarrow> e' = ea"
      using isa_uniq[OF _ ea(1) _ ea(2)] by (simp add: isa_def fbs_def ul_def)
    from mem_free_scan_after_found[OF ea(1) ea(2)[unfolded isa_def fbs_def ul_def] this, of 0 0 0] sc
    have "ba = fbs ea" "er = ea" by (simp_all add: fbs_def)
    with ea fb0[OF ea(1)] show ?thesis by auto
  qed
  note unf = mem_free_unfold[OF unl p0 sc[unfolded ub_def], folded ub_def, unfolded Let_def,
      folded ul_def, folded av_def]
  have new_elem: "elem_of L ub \<notin> set ?es"
  proof
    assume "elem_of L ub \<in> set ?es"
    from fb_ub[OF this] show False by (simp add: fbs_def elem_of_def list_entry_def)
  qed
  have fbs_new: "fbs (elem_of L ub) = ub" by (simp add: fbs_def elem_of_def list_entry_def)
  have img_split: "f ` A = insert (f e) (f ` (A - {e}))" if "e \<in> A"
    for f :: "addr \<Rightarrow> block" and A e
    using that by (metis image_insert insert_Diff)
  have rm1: "free_span L s ` (set ?es - {e}) = ?FS - {(y e, m e)}" for e
    by (simp only: free_span_image_remove fb)
  have rm2: "free_span L s ` (set ?es - {e} - {e'}) = ?FS - {(y e, m e)} - {(y e', m e')}" for e e'
    by (simp only: free_span_image_remove fb)
  have l0: "0 < l" using bnd(1) F0 by simp
  from A B consider
      (nn) "bb = 0" "ba = 0" "\<forall>e\<in>set ?es. \<not> isb e" "\<forall>e\<in>set ?es. \<not> isa e"
    | (bn) eb where "eb \<in> set ?es" "isb eb" "bb = fbs eb" "bb \<noteq> 0"
        "ba = 0" "\<forall>e\<in>set ?es. \<not> isa e"
    | (na) ea where "ea \<in> set ?es" "isa ea" "ba = fbs ea" "er = ea" "ba \<noteq> 0"
        "bb = 0" "\<forall>e\<in>set ?es. \<not> isb e"
    | (ba) eb ea where "eb \<in> set ?es" "isb eb" "bb = fbs eb" "bb \<noteq> 0"
        "ea \<in> set ?es" "isa ea" "ba = fbs ea" "er = ea" "ba \<noteq> 0"
    by blast
  then show ?thesis
  proof cases
    case nn
    define s' where "s' = s\<lparr>mem := (mem s)(ub := av),
      free_list := list_insert_ordered ?es (elem_of L ub) compare\<rparr>"
    have mf: "mem_free L p s = Some s'" using unf nn(1,2) by (simp add: s'_def)
    have g': "\<not> gmutex s'" using unl by (simp add: s'_def)
    have fl': "free_list s' = elem_of L ub # ?es"
      by (simp add: s'_def list_insert_ordered_compare[OF new_elem])
    have m': "mem s' = (mem s)(ub := av)" by (simp add: s'_def)
    have "free_span L s' (elem_of L ub) = (x, l)"
      using fbs_new by (simp add: free_span_def fbs_def m' avn x_def)
    moreover have "free_span L s' ` set ?es = ?FS"
      by (rule FS_keep) (simp add: m' fb_ub)
    ultimately have FS': "free_span L s' ` set (free_list s') = insert (x, l) ?FS"
      by (simp add: fl')
    have US': "used_span L s' ` (P - {p}) = ?US - {(x, l)}"
      by (rule US_eq) (simp add: m' used_ub)
    have hyp: "\<forall>c\<in>?FS. fst c + snd c \<noteq> fst (x, l) \<and> fst (x, l) + snd (x, l) \<noteq> fst c"
      using nn(3,4) isb_iff isa_iff by (auto simp: fb)
    from well_split_release[OF g F0 bU hyp]
    have "well_split ?a ?n (unat ?F) (free_span L s' ` set (free_list s')) (used_span L s' ` (P - {p}))"
      unfolding FS' US' .
    with g' dist fin new_elem have "idle_inv L base len s' (P - {p})"
      by (simp add: idle_inv_unfold fl')
    with mf show ?thesis by blast
  next
    case bn
    define s' where "s' = s\<lparr>mem := (mem s)(bb := mem s bb + av)\<rparr>"
    have mf: "mem_free L p s = Some s'" using unf bn(4,5) by (simp add: s'_def)
    have g': "\<not> gmutex s'" using unl by (simp add: s'_def)
    have fl': "free_list s' = ?es" by (simp add: s'_def)
    have m': "mem s' = (mem s)(bb := mem s bb + av)" by (simp add: s'_def)
    have ym: "y eb + m eb = x" using bn(1,2) isb_iff by simp
    have "unat (mem s bb) + unat av < 2^64"
      using ym bnd(3) top avn by (simp add: bn(3) m_def)
    then have "unat (mem s bb + av) = unat (mem s bb) + unat av" by (rule unat_add64)
    then have nl: "unat (mem s bb + av) = m eb + l" by (simp add: bn(3) m_def avn)
    have k1: "free_span L s' eb = (y eb, m eb + l)"
      using nl by (simp add: free_span_def m' bn(3) fbs_def y_def)
    have k2: "free_span L s' ` (set ?es - {eb}) = free_span L s ` (set ?es - {eb})"
    proof (rule FS_keep)
      fix e assume "e \<in> set ?es - {eb}"
      then have "y e \<noteq> y eb" using y_inj by auto
      then have "fbs e \<noteq> bb" unfolding bn(3) by (metis y_def)
      then show "mem s' (fbs e) = mem s (fbs e)" by (simp add: m')
    qed
    have "free_span L s' ` set (free_list s') = insert (free_span L s' eb) (free_span L s' ` (set ?es - {eb}))"
      unfolding fl' by (rule img_split[OF bn(1)])
    also have "\<dots> = insert (y eb, m eb + l) (?FS - {(y eb, m eb)})"
      unfolding k1 k2 rm1 ..
    finally have FS': "free_span L s' ` set (free_list s')
        = insert (y eb, m eb + l) (?FS - {(y eb, m eb)})" .
    have US': "used_span L s' ` (P - {p}) = ?US - {(x, l)}"
    proof (rule US_eq)
      fix q assume "q \<in> P" "q \<noteq> p"
      then have "q - ?U \<noteq> bb" unfolding bn(3) using used_free bn(1) by blast
      then show "mem s' (q - ?U) = mem s (q - ?U)" by (simp add: m')
    qed
    have h1: "(y eb + m eb, l) \<in> ?US" using bU ym by simp
    have h2: "\<forall>c\<in>?FS. fst c \<noteq> y eb + m eb + l"
      using bn(6) isa_iff ym by (auto simp: fb)
    from well_split_merge_before[OF g F0 fF[OF bn(1)] h1 h2]
    have "well_split ?a ?n (unat ?F) (free_span L s' ` set (free_list s')) (used_span L s' ` (P - {p}))"
      unfolding FS' US' ym .
    with g' dist fin have "idle_inv L base len s' (P - {p})"
      by (simp add: idle_inv_unfold fl')
    with mf show ?thesis by blast
  next
    case na
    define s' where "s' = s\<lparr>mem := (mem s)(ub := av + mem s ba),
      free_list := remove1 er (list_insert_ordered ?es (elem_of L ub) compare)\<rparr>"
    have mf: "mem_free L p s = Some s'" using unf na(5,6) by (simp add: s'_def)
    have g': "\<not> gmutex s'" using unl by (simp add: s'_def)
    have ne: "ea \<noteq> elem_of L ub" using na(1) new_elem by auto
    have fl': "free_list s' = elem_of L ub # remove1 ea ?es"
      using ne by (simp add: s'_def list_insert_ordered_compare[OF new_elem] na(4))
    have m': "mem s' = (mem s)(ub := av + mem s ba)" by (simp add: s'_def)
    have yl: "y ea = x + l" using na(1,2) isa_iff by simp
    have "unat av + unat (mem s ba) < 2^64"
      using yl fbnd[OF na(1)] top avn by (simp add: na(3) m_def)
    then have "unat (av + mem s ba) = unat av + unat (mem s ba)" by (rule unat_add64)
    then have nl: "unat (av + mem s ba) = l + m ea" by (simp add: na(3) m_def avn)
    have set': "set (free_list s') = insert (elem_of L ub) (set ?es - {ea})"
      using dist by (simp add: fl')
    have k1: "free_span L s' (elem_of L ub) = (x, l + m ea)"
      using fbs_new nl by (simp add: free_span_def fbs_def m' x_def)
    have k2: "free_span L s' ` (set ?es - {ea}) = free_span L s ` (set ?es - {ea})"
      by (rule FS_keep) (simp add: m' fb_ub)
    have "free_span L s' ` set (free_list s')
        = insert (free_span L s' (elem_of L ub)) (free_span L s' ` (set ?es - {ea}))"
      unfolding set' by (rule image_insert)
    also have "\<dots> = insert (x, l + m ea) (?FS - {(x + l, m ea)})"
      unfolding k1 k2 rm1 yl ..
    finally have FS': "free_span L s' ` set (free_list s')
        = insert (x, l + m ea) (?FS - {(x + l, m ea)})" .
    have US': "used_span L s' ` (P - {p}) = ?US - {(x, l)}"
      by (rule US_eq) (simp add: m' used_ub)
    have h1: "(x + l, m ea) \<in> ?FS" using fF[OF na(1)] yl by simp
    have h2: "\<forall>c\<in>?FS. fst c + snd c \<noteq> x"
      using na(7) isb_iff by (auto simp: fb)
    from well_split_merge_after[OF g F0 bU h1 h2]
    have "well_split ?a ?n (unat ?F) (free_span L s' ` set (free_list s')) (used_span L s' ` (P - {p}))"
      unfolding FS' US' .
    moreover have "distinct (free_list s')" using dist new_elem by (simp add: fl')
    ultimately have "idle_inv L base len s' (P - {p})"
      using g' fin by (simp add: idle_inv_unfold)
    with mf show ?thesis by blast
  next
    case ba
    have ym: "y eb + m eb = x" using ba(1,2) isb_iff by simp
    have yl: "y ea = x + l" using ba(5,6) isa_iff by simp
    have yne: "y ea \<noteq> y eb" using ym yl l0 by simp
    then have ene: "ea \<noteq> eb" by auto
    have bne: "ba \<noteq> bb" using yne unfolding ba(3,7) by (metis y_def)
    define s' where "s' = s\<lparr>mem := (mem s)(bb := mem s bb + av + mem s ba),
      free_list := remove1 er ?es\<rparr>"
    have mf: "mem_free L p s = Some s'" using unf ba(4,9) bne by (simp add: s'_def)
    have g': "\<not> gmutex s'" using unl by (simp add: s'_def)
    have fl': "free_list s' = remove1 ea ?es" by (simp add: s'_def ba(8))
    have m': "mem s' = (mem s)(bb := mem s bb + av + mem s ba)" by (simp add: s'_def)
    have b1: "unat (mem s bb) + unat av < 2^64"
      using ym bnd(3) top avn by (simp add: ba(3) m_def)
    then have n1: "unat (mem s bb + av) = m eb + l"
      using unat_add64[OF b1] by (simp add: ba(3) m_def avn)
    have "unat (mem s bb + av) + unat (mem s ba) < 2^64"
      unfolding n1 using ym yl fbnd[OF ba(5)] top by (simp add: ba(7) m_def)
    then have "unat (mem s bb + av + mem s ba) = unat (mem s bb + av) + unat (mem s ba)"
      by (rule unat_add64)
    then have nl: "unat (mem s bb + av + mem s ba) = m eb + l + m ea"
      by (simp add: n1 ba(7) m_def)
    have set': "set (free_list s') = set ?es - {ea}" using dist by (simp add: fl')
    have ebin: "eb \<in> set ?es - {ea}" using ba(1) ene by simp
    have k1: "free_span L s' eb = (y eb, m eb + l + m ea)"
      using nl by (simp add: free_span_def m' ba(3) fbs_def y_def)
    have k2: "free_span L s' ` (set ?es - {ea} - {eb}) = free_span L s ` (set ?es - {ea} - {eb})"
    proof (rule FS_keep)
      fix e assume "e \<in> set ?es - {ea} - {eb}"
      then have "y e \<noteq> y eb" using y_inj by auto
      then have "fbs e \<noteq> bb" unfolding ba(3) by (metis y_def)
      then show "mem s' (fbs e) = mem s (fbs e)" by (simp add: m')
    qed
    have yea: "y ea = y eb + m eb + l" using ym yl by simp
    have "free_span L s' ` set (free_list s')
        = insert (free_span L s' eb) (free_span L s' ` (set ?es - {ea} - {eb}))"
      unfolding set' by (rule img_split[OF ebin])
    also have "\<dots> = insert (y eb, m eb + l + m ea) (?FS - {(y ea, m ea)} - {(y eb, m eb)})"
      unfolding k1 k2 rm2 ..
    also have "\<dots> = insert (y eb, m eb + l + m ea)
        (?FS - {(y eb, m eb), (y eb + m eb + l, m ea)})"
      unfolding diff_two yea ..
    finally have FS': "free_span L s' ` set (free_list s')
        = insert (y eb, m eb + l + m ea) (?FS - {(y eb, m eb), (y eb + m eb + l, m ea)})" .
    have US': "used_span L s' ` (P - {p}) = ?US - {(y eb + m eb, l)}"
      unfolding ym
    proof (rule US_eq)
      fix q assume "q \<in> P" "q \<noteq> p"
      then have "q - ?U \<noteq> bb" unfolding ba(3) using used_free ba(1) by blast
      then show "mem s' (q - ?U) = mem s (q - ?U)" by (simp add: m')
    qed
    have h1: "(y eb + m eb, l) \<in> ?US" using bU ym by simp
    have h2: "(y eb + m eb + l, m ea) \<in> ?FS" using fF[OF ba(5)] yl ym by simp
    from well_split_merge_both[OF g F0 fF[OF ba(1)] h1 h2]
    have "well_split ?a ?n (unat ?F) (free_span L s' ` set (free_list s')) (used_span L s' ` (P - {p}))"
      unfolding FS' US' .
    with g' dist fin have "idle_inv L base len s' (P - {p})"
      by (simp add: idle_inv_unfold fl')
    with mf show ?thesis by blast
  qed
qed

section \<open>Conservation\<close>

lemma idle_inv_iff: "idle_inv L base len s P \<longleftrightarrow> \<not> gmutex s \<and> heap_inv L base len s P"
  by (simp add: idle_inv_def)

lemma mem_alloc_unlocked: "mem_alloc L n s = Some r \<Longrightarrow> \<not> gmutex s"
  by (auto simp: mem_alloc_def pthread_mutex_lock_def split: if_splits)

lemma mem_free_unlocked: "mem_free L p s = Some r \<Longrightarrow> \<not> gmutex s"
  by (auto simp: mem_free_def pthread_mutex_lock_def Let_def split: if_splits)

lemma mem_free_null: "mem_free L 0 s = Some s' \<Longrightarrow> s' = s\<lparr>gmutex := True\<rparr>"
  by (auto simp: mem_free_def pthread_mutex_lock_def Let_def split: if_splits)

lemma reachable_heap_inv:
  assumes "valid_layout L" "valid_arena L base len" "reachable L base len s P"
  shows "heap_inv L base len s P"
  using assms(3)
proof (induction rule: reachable.induct)
  case (init s0)
  from idle_inv_init[OF assms(1,2) this] show ?case by (simp add: idle_inv_iff)
next
  case (alloc s P n p s')
  from mem_alloc_unlocked[OF alloc.hyps(3)] alloc.IH
  have "idle_inv L base len s P" by (simp add: idle_inv_iff)
  from idle_inv_alloc[OF this assms(1,2) alloc.hyps(2,3)] alloc.IH
  show ?case by (auto simp: idle_inv_iff)
next
  case (free s P p s')
  from mem_free_unlocked[OF free.hyps(3)] free.IH
  have "idle_inv L base len s P" by (simp add: idle_inv_iff)
  from idle_inv_free[OF this assms(1,2) free.hyps(2)] free.hyps(3)
  show ?case by (auto simp: idle_inv_iff)
next
  case (free_null s P s')
  from mem_free_null[OF free_null.hyps(2)] free_null.IH
  show ?case by (simp add: heap_inv_def free_span_def used_span_def)
qed

lemma tiles_unique_cover:
  assumes "tiles a n F B" "b \<in> B" "c \<in> B" "in_block i b" "in_block i c"
  shows "b = c"
proof (rule ccontr)
  assume "b \<noteq> c"
  from tiles_disjoint[OF assms(1,2,3) this] assms(4,5) show False
    by (auto simp: in_block_def)
qed

lemma tiles_cover:
  "tiles a n F B \<Longrightarrow> a \<le> i \<Longrightarrow> i < a + n \<Longrightarrow> \<exists>b\<in>B. in_block i b"
  unfolding tiles_def in_block_def by blast

lemma tiles_sum:
  assumes "tiles a n F B"
  shows "(\<Sum>b\<in>B. snd b) = n"
proof -
  let ?A = "\<lambda>b. {fst b..<fst b + snd b}"
  from assms have fin: "finite B" by (simp add: tiles_def)
  have "\<Union>(?A ` B) = {a..<a + n}"
  proof (intro set_eqI iffI)
    fix i assume "i \<in> \<Union>(?A ` B)"
    then obtain b where "b \<in> B" "fst b \<le> i" "i < fst b + snd b" by auto
    with tiles_bounds[OF assms this(1)] show "i \<in> {a..<a + n}" by auto
  next
    fix i assume "i \<in> {a..<a + n}"
    then have "a \<le> i \<and> i < a + n" by simp
    with tiles_cover[OF assms, of i] obtain b where "b \<in> B" "fst b \<le> i \<and> i < fst b + snd b"
      unfolding in_block_def by blast
    then show "i \<in> \<Union>(?A ` B)" by auto
  qed
  moreover have "card (\<Union>(?A ` B)) = (\<Sum>b\<in>B. card (?A b))"
  proof (rule card_UN_disjoint[OF fin])
    show "\<forall>b\<in>B. finite (?A b)" by simp
    show "\<forall>b\<in>B. \<forall>c\<in>B. b \<noteq> c \<longrightarrow> ?A b \<inter> ?A c = {}"
    proof (intro ballI impI)
      fix b c assume "b \<in> B" "c \<in> B" "b \<noteq> c"
      from tiles_disjoint[OF assms this] show "?A b \<inter> ?A c = {}" by auto
    qed
  qed
  ultimately show ?thesis by simp
qed

lemma heap_inv_conservation:
  assumes "heap_inv L base len s P"
  shows "conservation L base len s P"
proof -
  let ?a = "unat base" and ?n = "unat len" and ?F = "unat (sizeof_free_block L)"
  let ?es = "free_list s"
  let ?FS = "free_span L s ` set ?es" and ?US = "used_span L s ` P"
  from assms have dist: "distinct ?es" and fin: "finite P" and g: "well_split ?a ?n ?F ?FS ?US"
    by (simp_all add: heap_inv_def)
  from g have t: "tiles ?a ?n ?F (?FS \<union> ?US)" and dj: "?FS \<inter> ?US = {}"
    by (simp_all add: well_split_def)
  have c1: "\<forall>e\<in>set ?es. ?a \<le> fst (free_span L s e) \<and>
      fst (free_span L s e) + snd (free_span L s e) \<le> ?a + ?n"
    using tiles_bounds[OF t] by simp
  have c2: "\<forall>p\<in>P. ?a \<le> fst (used_span L s p) \<and>
      fst (used_span L s p) + snd (used_span L s p) \<le> ?a + ?n"
    using tiles_bounds[OF t] by simp
  have c3: "length (filter (\<lambda>e. in_block i (free_span L s e)) ?es)
      + card {p \<in> P. in_block i (used_span L s p)} = 1" if i: "?a \<le> i \<and> i < ?a + ?n" for i
  proof -
    let ?E = "{e \<in> set ?es. in_block i (free_span L s e)}"
    let ?Q = "{p \<in> P. in_block i (used_span L s p)}"
    have "{e. in_block i (free_span L s e)} \<inter> set ?es = ?E" by blast
    then have len: "length (filter (\<lambda>e. in_block i (free_span L s e)) ?es) = card ?E"
      using distinct_length_filter[OF dist, of "\<lambda>e. in_block i (free_span L s e)"]
      by (simp only:)
    from tiles_cover[OF t conjunct1[OF i] conjunct2[OF i]]
    obtain b where b: "b \<in> ?FS \<union> ?US" "in_block i b" ..
    have uniq: "c = b" if "c \<in> ?FS \<union> ?US" "in_block i c" for c
      using tiles_unique_cover[OF t that(1) b(1) that(2) b(2)] .
    from b(1) show ?thesis
    proof
      assume "b \<in> ?FS"
      then obtain e0 where e0: "e0 \<in> set ?es" "b = free_span L s e0" by auto
      have "?E = {e0}"
      proof (intro set_eqI iffI)
        fix e assume "e \<in> ?E"
        then have "free_span L s e = b" using uniq by simp
        with e0(2) show "e \<in> {e0}" using free_span_inj' by auto
      next
        fix e assume "e \<in> {e0}"
        with e0 b(2) show "e \<in> ?E" by simp
      qed
      moreover have "?Q = {}"
      proof (rule ccontr)
        assume "?Q \<noteq> {}"
        then obtain p where "p \<in> P" "in_block i (used_span L s p)" by auto
        then have "used_span L s p = b" "used_span L s p \<in> ?US" using uniq by simp_all
        with \<open>b \<in> ?FS\<close> dj show False by auto
      qed
      ultimately show ?thesis by (simp add: len)
    next
      assume "b \<in> ?US"
      then obtain p0 where p0: "p0 \<in> P" "b = used_span L s p0" by auto
      have "?Q = {p0}"
      proof (intro set_eqI iffI)
        fix p assume "p \<in> ?Q"
        then have "used_span L s p = b" using uniq by simp
        with p0(2) show "p \<in> {p0}" using used_span_inj' by auto
      next
        fix p assume "p \<in> {p0}"
        with p0 b(2) show "p \<in> ?Q" by simp
      qed
      moreover have "?E = {}"
      proof (rule ccontr)
        assume "?E \<noteq> {}"
        then obtain e where "e \<in> set ?es" "in_block i (free_span L s e)" by auto
        then have "free_span L s e = b" "free_span L s e \<in> ?FS" using uniq by simp_all
        with \<open>b \<in> ?US\<close> dj show False by auto
      qed
      ultimately show ?thesis by (simp add: len)
    qed
  qed
  have "sum_list (map (\<lambda>e. snd (free_span L s e)) ?es) = (\<Sum>e\<in>set ?es. snd (free_span L s e))"
    using dist by (rule sum_list_distinct_conv_sum_set)
  also have "\<dots> = (\<Sum>b\<in>?FS. snd b)"
    by (rule sum.reindex[symmetric, unfolded o_def]) (auto intro!: inj_onI dest: free_span_inj')
  finally have sf: "sum_list (map (\<lambda>e. snd (free_span L s e)) ?es) = (\<Sum>b\<in>?FS. snd b)" .
  have su: "(\<Sum>p\<in>P. snd (used_span L s p)) = (\<Sum>b\<in>?US. snd b)"
    by (rule sum.reindex[symmetric, unfolded o_def]) (auto intro!: inj_onI dest: used_span_inj')
  have "(\<Sum>b\<in>?FS. snd b) + (\<Sum>b\<in>?US. snd b) = (\<Sum>b\<in>?FS \<union> ?US. snd b)"
    using fin dj by (intro sum.union_disjoint[symmetric]) simp_all
  also have "\<dots> = ?n" by (rule tiles_sum[OF t])
  finally have c4: "sum_list (map (\<lambda>e. snd (free_span L s e)) ?es) + (\<Sum>p\<in>P. snd (used_span L s p)) = ?n"
    by (simp add: sf su)
  from c1 c2 c3 c4 show ?thesis unfolding conservation_def by blast
qed

text \<open>
  C1. In every state that \<open>mem_init\<close>, \<open>mem_alloc\<close> and \<open>mem_free\<close> reach for a caller that
  keeps the contract, conservation holds: every block lies inside the arena, every byte of
  the arena belongs to exactly one block, free or used, and the free lengths plus the used
  spans (header plus payload) add up to the arena length.
\<close>

theorem conservation_invariant:
  assumes "valid_layout L" "valid_arena L base len" "reachable L base len s P"
  shows "conservation L base len s P"
  by (rule heap_inv_conservation[OF reachable_heap_inv[OF assms]])

theorem conservation_invariant_witness:
  "reachable lp64 4096 1024 after_free_first {4812} \<and> conservation lp64 4096 1024 after_free_first {4812}"
proof -
  have vl: "valid_layout lp64" and va: "valid_arena lp64 4096 1024"
    by (simp_all add: valid_layout_def valid_arena_def lp64_def)
  have rq: "request_ok lp64 100" "request_ok lp64 200"
    by (simp_all add: request_ok_def lp64_def)
  have r0: "reachable lp64 4096 1024 arena0 {}"
    unfolding arena0_def by (rule reachable.init) (simp add: fresh_def)
  have a1: "mem_alloc lp64 100 arena0 = Some (5020, after_alloc_100)"
    by (simp add: eval_defs after_alloc_100_def)
  have a2: "mem_alloc lp64 200 after_alloc_100 = Some (4812, after_alloc_200)"
    by (simp add: eval_defs after_alloc_100_def after_alloc_200_def)
  have f3: "mem_free lp64 5020 after_alloc_200 = Some after_free_first"
    by (simp add: eval_defs after_free_first_def after_alloc_200_def compare_neq)
  from reachable.alloc[OF r0 rq(1) a1] have r1: "reachable lp64 4096 1024 after_alloc_100 {5020}" by simp
  from reachable.alloc[OF r1 rq(2) a2] have r2: "reachable lp64 4096 1024 after_alloc_200 {4812, 5020}" by simp
  have "{4812, 5020} - {5020} = {4812 :: addr}" by auto
  with reachable.free[OF r2 _ f3] have r3: "reachable lp64 4096 1024 after_free_first {4812}" by simp
  from conservation_invariant[OF vl va r3] r3 show ?thesis by simp
qed

section \<open>Full reclamation\<close>

lemma alloc_all_inv:
  assumes "valid_layout L" "valid_arena L base len"
  shows "idle_inv L base len s P \<Longrightarrow> \<forall>n\<in>set ns. request_ok L n \<Longrightarrow>
    alloc_all L ns s = Some (ps, s1) \<Longrightarrow> 0 \<notin> set ps \<Longrightarrow>
    idle_inv L base len s1 (P \<union> set ps) \<and> distinct ps \<and> set ps \<inter> P = {}"
proof (induction ns arbitrary: s P ps)
  case Nil
  then show ?case by simp
next
  case (Cons n ns)
  from Cons.prems(3) obtain p s' ps' where
    a: "mem_alloc L n s = Some (p, s')" and r: "alloc_all L ns s' = Some (ps', s1)"
    and ps: "ps = p # ps'"
    by (auto split: option.splits)
  from Cons.prems(4) ps have p0: "p \<noteq> 0" and z: "0 \<notin> set ps'" by auto
  from Cons.prems(2) have rq: "request_ok L n" and rqs: "\<forall>n\<in>set ns. request_ok L n"
    by simp_all
  from idle_inv_alloc[OF Cons.prems(1) assms rq a] p0
  have pP: "p \<notin> P" and inv': "idle_inv L base len s' (insert p P)" by auto
  from Cons.IH[OF inv' rqs r z]
  have "idle_inv L base len s1 (insert p P \<union> set ps')" "distinct ps'" "set ps' \<inter> insert p P = {}"
    by auto
  with pP ps show ?case by auto
qed

lemma free_all_inv:
  assumes "valid_layout L" "valid_arena L base len"
  shows "idle_inv L base len s P \<Longrightarrow> distinct qs \<Longrightarrow> set qs \<subseteq> P \<Longrightarrow>
    \<exists>s2. free_all L qs s = Some s2 \<and> idle_inv L base len s2 (P - set qs)"
proof (induction qs arbitrary: s P)
  case Nil
  then show ?case by simp
next
  case (Cons q qs)
  from Cons.prems(3) have qP: "q \<in> P" by simp
  from idle_inv_free[OF Cons.prems(1) assms qP]
  obtain s' where f: "mem_free L q s = Some s'" and inv': "idle_inv L base len s' (P - {q})"
    by blast
  from Cons.prems(2,3) have "distinct qs" "set qs \<subseteq> P - {q}" by auto
  from Cons.IH[OF inv' this]
  obtain s2 where "free_all L qs s' = Some s2" "idle_inv L base len s2 (P - {q} - set qs)"
    by blast
  moreover have "P - {q} - set qs = P - set (q # qs)" by auto
  ultimately show ?case using f by simp
qed

lemma idle_inv_all_free:
  assumes "valid_layout L" "valid_arena L base len" "idle_inv L base len s {}"
  shows "free_blocks L s = [(base, len)]"
proof -
  let ?F = "sizeof_free_block L"
  from assms(1) have F0: "0 < unat ?F"
    by (auto simp: valid_layout_def word_le_nat_alt word_less_nat_alt)
  from assms(2) have "unat ?F \<le> unat len" by (simp add: valid_arena_def word_le_nat_alt)
  with F0 have n0: "0 < unat len" by simp
  from assms(3) have dist: "distinct (free_list s)"
    and g: "well_split (unat base) (unat len) (unat ?F) (free_span L s ` set (free_list s)) {}"
    by (simp_all add: idle_inv_unfold)
  from well_split_all_free[OF g F0 n0]
  have fs: "free_span L s ` set (free_list s) = {(unat base, unat len)}" .
  have "inj_on (free_span L s) (set (free_list s))" by (auto intro!: inj_onI dest: free_span_inj')
  from card_image[OF this] fs have "card (set (free_list s)) = 1" by simp
  with dist have "length (free_list s) = 1" by (simp add: distinct_card)
  then obtain e where e: "free_list s = [e]" by (cases "free_list s") auto
  with fs have "free_span L s e = (unat base, unat len)" by simp
  then have "list_entry L e = base" "mem s (list_entry L e) = len"
    by (simp_all add: free_span_def word_unat_eq_iff)
  with e show ?thesis by (simp add: free_blocks_def)
qed

text \<open>
  C7. From an arena that \<open>mem_init\<close> has just set up, after any sequence of allocations that
  all succeed, releasing the returned pointers in any order returns from every call and
  leaves a free list of exactly one entry, at the arena base and of the arena length.
\<close>

theorem full_reclamation:
  assumes "valid_layout L" "valid_arena L base len" "\<not> gmutex s0"
    and "\<forall>n\<in>set ns. request_ok L n"
    and "alloc_all L ns (mem_init L base len s0) = Some (ps, s1)"
    and "0 \<notin> set ps"
    and "mset qs = mset ps"
  shows "\<exists>s2. free_all L qs s1 = Some s2 \<and> free_blocks L s2 = [(base, len)]"
proof -
  from idle_inv_init[OF assms(1,2,3)] have "idle_inv L base len (mem_init L base len s0) {}" .
  from alloc_all_inv[OF assms(1,2) this assms(4,5,6)]
  have inv1: "idle_inv L base len s1 (set ps)" and d: "distinct ps" by simp_all
  from assms(7) d have dq: "distinct qs" and sq: "set qs = set ps"
    by (metis mset_eq_imp_distinct_iff, metis mset_eq_setD)
  from free_all_inv[OF assms(1,2) inv1 dq] sq
  obtain s2 where f: "free_all L qs s1 = Some s2" and "idle_inv L base len s2 (set ps - set qs)"
    by auto
  with sq have "idle_inv L base len s2 {}" by simp
  from idle_inv_all_free[OF assms(1,2) this] f show ?thesis by blast
qed

theorem full_reclamation_witness:
  "alloc_all lp64 [100, 200, 50] arena0 = Some ([5020, 4812, 4754], 
     after_three_allocs)
   \<and> (\<exists>s2. free_all lp64 [4812, 5020, 4754]
          after_three_allocs = Some s2
        \<and> free_blocks lp64 s2 = [(4096, 1024)])"
proof -
  have a: "alloc_all lp64 [100, 200, 50] (mem_init lp64 4096 1024 fresh) = Some ([5020, 4812, 4754], 
     after_three_allocs)"
    by (simp add: eval_defs after_three_allocs_def)
  have "valid_layout lp64" "valid_arena lp64 4096 1024" "\<not> gmutex fresh"
    "\<forall>n\<in>set [100, 200, 50]. request_ok lp64 n"
    by (simp_all add: valid_layout_def valid_arena_def request_ok_def lp64_def fresh_def)
  from full_reclamation[OF this a, of "[4812, 5020, 4754]"] a
  show ?thesis by (simp add: arena0_def)
qed

end
